theory Spec2Isabelle
  imports Complex_Main "HOL-Library.Word" "HOL-Library.Log_Nat"
begin

section \<open>Strings of UTF-16 code units\<close>

text \<open>
  A JavaScript string is a sequence of 16-bit code units; \<open>length\<close>, \<open>trim\<close>, \<open>split\<close>
  and regular expressions without the \<open>u\<close> flag all work on code units. The literals of
  the program are ASCII, written here through \<open>js\<close>.
\<close>

type_synonym cu = "16 word"
type_synonym jsstring = "cu list"

definition js :: "string \<Rightarrow> jsstring" where
  "js = map of_char"

text \<open>\<open>WhiteSpace\<close> and \<open>LineTerminator\<close> of ECMAScript: what \<open>trim\<close> strips and \<open>\s\<close> matches.\<close>

definition isLineTerminator :: "cu \<Rightarrow> bool" where
  "isLineTerminator c = (c = 0x0A \<or> c = 0x0D \<or> c = 0x2028 \<or> c = 0x2029)"

definition isWhiteSpace :: "cu \<Rightarrow> bool" where
  "isWhiteSpace c =
     (c = 0x09 \<or> c = 0x0B \<or> c = 0x0C \<or> c = 0x20 \<or> c = 0xA0 \<or> c = 0x1680
      \<or> (0x2000 \<le> c \<and> c \<le> 0x200A) \<or> c = 0x202F \<or> c = 0x205F \<or> c = 0x3000
      \<or> c = 0xFEFF \<or> isLineTerminator c)"

text \<open>\<open>\w\<close>: ASCII letters, digits and the underscore.\<close>

definition isWordChar :: "cu \<Rightarrow> bool" where
  "isWordChar c =
     ((0x61 \<le> c \<and> c \<le> 0x7A) \<or> (0x41 \<le> c \<and> c \<le> 0x5A)
      \<or> (0x30 \<le> c \<and> c \<le> 0x39) \<or> c = 0x5F)"

text \<open>\<open>String.prototype.trim\<close>.\<close>

definition trim :: "jsstring \<Rightarrow> jsstring" where
  "trim s = rev (dropWhile isWhiteSpace (rev (dropWhile isWhiteSpace s)))"

text \<open>
  \<open>String.prototype.split\<close> with a one-unit separator: the pieces between the
  separators, so a string with \<open>n\<close> separators gives \<open>n + 1\<close> pieces. \<open>cur\<close> holds the
  piece being read, reversed.
\<close>

fun splitFrom :: "cu \<Rightarrow> jsstring \<Rightarrow> jsstring \<Rightarrow> jsstring list" where
  "splitFrom sep cur [] = [rev cur]"
| "splitFrom sep cur (c # cs) =
     (if c = sep then rev cur # splitFrom sep [] cs else splitFrom sep (c # cur) cs)"

definition split :: "jsstring \<Rightarrow> cu \<Rightarrow> jsstring list" where
  "split s sep = splitFrom sep [] s"

definition newline :: cu where
  "newline = 0x0A"

section \<open>Regular expressions\<close>

text \<open>
  The fragment of ECMAScript regular expressions the analyzers use: literals, the
  assertions \<open>\b\<close>, \<open>^\<close> and \<open>$\<close>, greedy \<open>+\<close> and \<open>*\<close> over a character class,
  sequence and alternation.
\<close>

datatype cclass = Space | WordCh | Dot | OneOf jsstring

fun inClass :: "cclass \<Rightarrow> cu \<Rightarrow> bool" where
  "inClass Space c = isWhiteSpace c"
| "inClass WordCh c = isWordChar c"
| "inClass Dot c = (\<not> isLineTerminator c)"
| "inClass (OneOf cs) c = (c \<in> set cs)"

datatype regex =
    Lit jsstring
  | Plus cclass
  | Star cclass
  | WordBoundary
  | Bol
  | Eol
  | Seq regex regex
  | Alt regex regex

definition wordBefore :: "jsstring \<Rightarrow> nat \<Rightarrow> bool" where
  "wordBefore s i = (0 < i \<and> i \<le> length s \<and> isWordChar (s ! (i - 1)))"

definition wordAt :: "jsstring \<Rightarrow> nat \<Rightarrow> bool" where
  "wordAt s i = (i < length s \<and> isWordChar (s ! i))"

text \<open>
  \<open>ends r s i\<close>: the positions where a match of \<open>r\<close> that starts at \<open>i\<close> can end, in the
  order a backtracking matcher tries them (a greedy repetition tries the longest run
  first, an alternation its left branch first).
\<close>

fun ends :: "regex \<Rightarrow> jsstring \<Rightarrow> nat \<Rightarrow> nat list" where
  "ends (Lit w) s i = (if take (length w) (drop i s) = w then [i + length w] else [])"
| "ends (Plus c) s i =
     rev (map (\<lambda>k. i + k) [1..<Suc (length (takeWhile (inClass c) (drop i s)))])"
| "ends (Star c) s i =
     rev (map (\<lambda>k. i + k) [0..<Suc (length (takeWhile (inClass c) (drop i s)))])"
| "ends WordBoundary s i = (if wordBefore s i \<noteq> wordAt s i then [i] else [])"
| "ends Bol s i = (if i = 0 then [i] else [])"
| "ends Eol s i = (if i = length s then [i] else [])"
| "ends (Seq a b) s i = concat (map (ends b s) (ends a s i))"
| "ends (Alt a b) s i = ends a s i @ ends b s i"

fun seqs :: "regex list \<Rightarrow> regex" where
  "seqs [] = Lit []"
| "seqs [r] = r"
| "seqs (r # rs) = Seq r (seqs rs)"

fun alts :: "jsstring list \<Rightarrow> regex" where
  "alts [] = Lit []"
| "alts [w] = Lit w"
| "alts (w # ws) = Alt (Lit w) (alts ws)"

text \<open>\<open>RegExp.prototype.test\<close> of a regex without the \<open>g\<close> flag: a match starting anywhere.\<close>

definition test :: "regex \<Rightarrow> jsstring \<Rightarrow> bool" where
  "test r s = list_ex (\<lambda>i. ends r s i \<noteq> []) [0..<Suc (length s)]"

lemma ends_bounds: "e \<in> set (ends r s i) \<Longrightarrow> i \<le> length s \<Longrightarrow> i \<le> e \<and> e \<le> length s"
proof (induction r arbitrary: i e)
  case (Lit w)
  then have eq: "take (length w) (drop i s) = w" and e: "e = i + length w"
    by (auto split: if_splits)
  have "length (take (length w) (drop i s)) \<le> length s - i"
    by simp
  with eq have "length w \<le> length s - i"
    by simp
  with e Lit.prems(2) show ?case by simp
next
  case (Plus c)
  have "length (takeWhile (inClass c) (drop i s)) \<le> length s - i"
    by (metis length_drop length_takeWhile_le)
  with Plus show ?case by auto
next
  case (Star c)
  have "length (takeWhile (inClass c) (drop i s)) \<le> length s - i"
    by (metis length_drop length_takeWhile_le)
  with Star show ?case by auto
next
  case (Seq a b)
  then obtain m where m: "m \<in> set (ends a s i)" and e: "e \<in> set (ends b s m)"
    by auto
  from Seq.IH(1)[OF m Seq.prems(2)] have "i \<le> m" "m \<le> length s" by simp_all
  with Seq.IH(2)[OF e] show ?case by simp
qed (auto split: if_splits)

text \<open>
  \<open>String.prototype.match\<close> with a \<open>g\<close> regex: the number of matches found by scanning from
  \<open>lastIndex = i\<close>. Each search tries the start positions from \<open>lastIndex\<close> on; a match
  moves \<open>lastIndex\<close> to its end, and past it by one when the match is empty. The source
  reads only the length of the array of matches (\<open>null\<close>, no match, where it is 0).
\<close>

function matchCount :: "regex \<Rightarrow> jsstring \<Rightarrow> nat \<Rightarrow> nat" where
  "matchCount r s i =
     (if length s < i then 0
      else (case ends r s i of
              [] \<Rightarrow> matchCount r s (i + 1)
            | e # _ \<Rightarrow> 1 + matchCount r s (if e = i then i + 1 else e)))"
  by pat_completeness auto
termination
proof (relation "measure (\<lambda>(r, s, i). Suc (length s) - i)")
  show "wf (measure (\<lambda>(r, s, i). Suc (length s) - i))" by simp
next
  fix r :: regex and s :: jsstring and i :: nat
  assume "\<not> length s < i" "ends r s i = []"
  then show "((r, s, i + 1), (r, s, i)) \<in> measure (\<lambda>(r, s, i). Suc (length s) - i)"
    by simp
next
  fix r :: regex and s :: jsstring and i e :: nat and es :: "nat list"
  assume le: "\<not> length s < i" and en: "ends r s i = e # es"
  then have "e \<in> set (ends r s i)" by simp
  with le have "i \<le> e" using ends_bounds[of e r s i] by simp
  with le show "((r, s, if e = i then i + 1 else e), (r, s, i))
        \<in> measure (\<lambda>(r, s, i). Suc (length s) - i)"
    by auto
qed

declare matchCount.simps [simp del]

section \<open>Numbers\<close>

text \<open>
  A number of the source is an IEEE 754 double. The counters are integers far below
  \<open>2 ^ 53\<close>, which a double holds exactly: they are \<open>nat\<close>, or \<open>int\<close> where the source
  subtracts. The percentage is the one number that a division and a product round; it is
  the rational number that the double holds.

  \<open>roundDouble x\<close> is the double nearest to \<open>x\<close>, a tie going to the even significand:
  \<open>x\<close> is scaled to a significand of 53 bits, rounded to an integer and scaled back.
  The range of the exponent is not bounded: a quotient of two counters and its product
  with 100 are 0 or lie between \<open>2 ^ -53\<close> and 100, far from overflow and from the
  subnormal numbers.
\<close>

definition roundEven :: "rat \<Rightarrow> int" where
  "roundEven y =
     (let f = \<lfloor>y\<rfloor>; r = y - of_int f
      in if r < 1 / 2 then f else if 1 / 2 < r then f + 1 else if even f then f else f + 1)"

text \<open>The exponent of \<open>x > 0\<close>: \<open>2 ^ ilog2 x \<le> x < 2 ^ (ilog2 x + 1)\<close>.\<close>

definition ilog2 :: "rat \<Rightarrow> int" where
  "ilog2 x =
     (let (p, q) = quotient_of x; a = bitlen p - bitlen q
      in if power_int 2 a \<le> x then a else a - 1)"

definition roundDouble :: "rat \<Rightarrow> rat" where
  "roundDouble x =
     (if x = 0 then 0
      else (let e = ilog2 \<bar>x\<bar> - 52
            in of_int (roundEven (x / power_int 2 e)) * power_int 2 e))"

section \<open>The data model\<close>

text \<open>
  The interfaces \<open>ComplexityLocation\<close> and \<open>CodeMetrics\<close>. The anonymous object types of
  \<open>CodeMetrics\<close> are records of their own; \<open>max\<close> and the second \<open>code\<close> and \<open>locations\<close>
  are renamed, and a \<open>{ line: number }\<close> of a duplicate's locations is its number.
\<close>

record ComplexityLocation =
  line :: nat
  code :: jsstring
  depth :: "nat option"

record Complexity =
  total :: nat
  locations :: "ComplexityLocation list"

record Nesting =
  maxN :: int
  locationsN :: "ComplexityLocation list"

record DuplicateBlock =
  codeD :: jsstring
  occurrences :: nat
  locationsD :: "nat list"

record DocumentationCoverage =
  totalComplexLines :: nat
  documentedComplexLines :: nat
  percentage :: rat

record CodeMetrics =
  cyclomaticComplexity :: Complexity
  maxNestingDepth :: Nesting
  duplicatedCodeBlocks :: "DuplicateBlock list"
  documentationCoverage :: DocumentationCoverage

text \<open>
  The exceptions the analyzers could raise: a method call on \<open>undefined\<close>, and a call with
  more arguments than the engine takes.
\<close>

datatype error = TypeError | RangeError

text \<open>
  \<open>Array.prototype.forEach\<close> and the counting \<open>for\<close> loops over an array: the callback
  takes the element, its index and the variables the loop body assigns.
\<close>

fun forEach :: "('a \<Rightarrow> nat \<Rightarrow> 's \<Rightarrow> 's) \<Rightarrow> nat \<Rightarrow> 'a list \<Rightarrow> 's \<Rightarrow> 's" where
  "forEach f index [] st = st"
| "forEach f index (x # xs) st = forEach f (index + 1) xs (f x index st)"

text \<open>The same loop with a callback that can raise: the exception ends the loop.\<close>

fun forEachE ::
  "('a \<Rightarrow> nat \<Rightarrow> 's \<Rightarrow> error + 's) \<Rightarrow> nat \<Rightarrow> 'a list \<Rightarrow> 's \<Rightarrow> error + 's" where
  "forEachE f index [] st = Inr st"
| "forEachE f index (x # xs) st =
     (case f x index st of
        Inl e \<Rightarrow> Inl e
      | Inr st' \<Rightarrow> forEachE f (index + 1) xs st')"

section \<open>Cyclomatic complexity\<close>

text \<open>\<^verbatim>\<open>/\b(if|while|for|case|catch)\b|&&|\|\||\?/g\<close>\<close>

definition controlFlowRegex :: regex where
  "controlFlowRegex =
     Alt (seqs [WordBoundary,
                alts [js ''if'', js ''while'', js ''for'', js ''case'', js ''catch''],
                WordBoundary])
      (Alt (Lit (js ''&&'')) (Alt (Lit (js ''||'')) (Lit (js ''?''))))"

text \<open>\<^verbatim>\<open>/\belse\b/\<close> and \<^verbatim>\<open>/\belse\s+if\b/\<close>\<close>

definition elseRegex :: regex where
  "elseRegex = seqs [WordBoundary, Lit (js ''else''), WordBoundary]"

definition elseIfRegex :: regex where
  "elseIfRegex = seqs [WordBoundary, Lit (js ''else''), Plus Space, Lit (js ''if''), WordBoundary]"

record cstate =
  complexity :: nat
  locationsC :: "ComplexityLocation list"

definition complexityLine :: "jsstring \<Rightarrow> nat \<Rightarrow> cstate \<Rightarrow> cstate" where
  "complexityLine srcLine index st =
     (let controlFlowMatches = matchCount controlFlowRegex srcLine 0;
          st1 = (if 0 < controlFlowMatches
                 then st\<lparr>complexity := complexity st + controlFlowMatches,
                         locationsC := locationsC st @
                           [\<lparr>line = index + 1, code = trim srcLine, depth = None\<rparr>]\<rparr>
                 else st)
      in if test elseRegex srcLine \<and> \<not> test elseIfRegex srcLine
         then st1\<lparr>complexity := complexity st1 + 1,
                  locationsC := locationsC st1 @
                    [\<lparr>line = index + 1, code = trim srcLine, depth = None\<rparr>]\<rparr>
         else st1)"

definition calculateCyclomaticComplexity :: "jsstring \<Rightarrow> Complexity" where
  "calculateCyclomaticComplexity sourceCode =
     (let st = forEach complexityLine 0 (split sourceCode newline)
                 \<lparr>complexity = 1, locationsC = []\<rparr>
      in \<lparr>total = complexity st, locations = locationsC st\<rparr>)"

section \<open>Nesting depth\<close>

text \<open>\<^verbatim>\<open>/\b(if|for|while|switch|do)\b.*{/\<close>, \<^verbatim>\<open>/\belse\b.*{/\<close> and \<^verbatim>\<open>/}/g\<close>\<close>

definition openRegex :: regex where
  "openRegex =
     seqs [WordBoundary,
           alts [js ''if'', js ''for'', js ''while'', js ''switch'', js ''do''],
           WordBoundary, Star Dot, Lit (js ''{'')]"

definition elseOpenRegex :: regex where
  "elseOpenRegex = seqs [WordBoundary, Lit (js ''else''), WordBoundary, Star Dot, Lit (js ''{'')]"

definition closeRegex :: regex where
  "closeRegex = Lit (js ''}'')"

record Frame =
  lineF :: nat
  codeF :: jsstring

record nstate =
  maxDepth :: int
  currentDepth :: int
  locationsS :: "ComplexityLocation list"
  stack :: "Frame list"

text \<open>\<open>stack.map((item, depth) => ({line: item.line, code: item.code, depth: depth + 1}))\<close>\<close>

definition snapshot :: "Frame list \<Rightarrow> ComplexityLocation list" where
  "snapshot stk =
     map (\<lambda>(item, d). \<lparr>line = lineF item, code = codeF item, depth = Some (d + 1)\<rparr>)
       (zip stk [0..<length stk])"

definition opensBlock :: "jsstring \<Rightarrow> bool" where
  "opensBlock trimmedLine = (test openRegex trimmedLine \<or> test elseOpenRegex trimmedLine)"

text \<open>
  The first half of the callback: the \<open>if\<close> on the control structures, where the call
  \<open>locations.push(...)\<close> returns.
\<close>

definition openRule :: "jsstring \<Rightarrow> nat \<Rightarrow> nstate \<Rightarrow> nstate" where
  "openRule trimmedLine index st =
     (if opensBlock trimmedLine
      then (let st1 = st\<lparr>currentDepth := currentDepth st + 1,
                         stack := stack st @ [\<lparr>lineF = index + 1, codeF = trimmedLine\<rparr>]\<rparr>
            in if maxDepth st1 < currentDepth st1
               then st1\<lparr>maxDepth := currentDepth st1, locationsS := snapshot (stack st1)\<rparr>
               else st1)
      else st)"

text \<open>The body of the loop over the closing braces.\<close>

definition closeBrace :: "nstate \<Rightarrow> nstate" where
  "closeBrace st =
     (let st1 = st\<lparr>currentDepth := max 0 (currentDepth st - 1)\<rparr>
      in if 0 < length (stack st1) then st1\<lparr>stack := butlast (stack st1)\<rparr> else st1)"

fun closeLoop :: "nat \<Rightarrow> nstate \<Rightarrow> nstate" where
  "closeLoop 0 st = st"
| "closeLoop (Suc n) st = closeLoop n (closeBrace st)"

definition nestingLine :: "jsstring \<Rightarrow> nat \<Rightarrow> nstate \<Rightarrow> nstate" where
  "nestingLine srcLine index st =
     (let trimmedLine = trim srcLine;
          st1 = openRule trimmedLine index st;
          closeBraces = matchCount closeRegex trimmedLine 0
      in closeLoop closeBraces st1)"

definition nestingInit :: nstate where
  "nestingInit = \<lparr>maxDepth = 0, currentDepth = 0, locationsS = [], stack = []\<rparr>"

definition calculateMaxNestingDepth :: "jsstring list \<Rightarrow> Nesting" where
  "calculateMaxNestingDepth lines =
     (let st = forEach nestingLine 0 lines nestingInit
      in \<lparr>maxN = maxDepth st, locationsN = locationsS st\<rparr>)"

text \<open>
  The same functions with the exception of the engine.
  \<open>locations.push(...stack.map(...))\<close> spreads the copy of the stack into the arguments of
  one call, and a call with more arguments than the engine takes raises \<open>RangeError\<close>
  before \<open>push\<close> runs. The bound is the engine's and not the repository's: it is the
  parameter \<open>maxArguments\<close>.
\<close>

definition openRuleE :: "nat \<Rightarrow> jsstring \<Rightarrow> nat \<Rightarrow> nstate \<Rightarrow> error + nstate" where
  "openRuleE maxArguments trimmedLine index st =
     (if opensBlock trimmedLine
      then (let st1 = st\<lparr>currentDepth := currentDepth st + 1,
                         stack := stack st @ [\<lparr>lineF = index + 1, codeF = trimmedLine\<rparr>]\<rparr>
            in if maxDepth st1 < currentDepth st1
               then (let st2 = st1\<lparr>maxDepth := currentDepth st1, locationsS := []\<rparr>;
                         arguments = snapshot (stack st2)
                     in if maxArguments < length arguments
                        then Inl RangeError
                        else Inr (st2\<lparr>locationsS := locationsS st2 @ arguments\<rparr>))
               else Inr st1)
      else Inr st)"

definition nestingLineE :: "nat \<Rightarrow> jsstring \<Rightarrow> nat \<Rightarrow> nstate \<Rightarrow> error + nstate" where
  "nestingLineE maxArguments srcLine index st =
     (let trimmedLine = trim srcLine
      in case openRuleE maxArguments trimmedLine index st of
           Inl e \<Rightarrow> Inl e
         | Inr st1 \<Rightarrow> Inr (closeLoop (matchCount closeRegex trimmedLine 0) st1))"

definition calculateMaxNestingDepthE :: "nat \<Rightarrow> jsstring list \<Rightarrow> error + Nesting" where
  "calculateMaxNestingDepthE maxArguments lines =
     (case forEachE (nestingLineE maxArguments) 0 lines nestingInit of
        Inl e \<Rightarrow> Inl e
      | Inr st \<Rightarrow> Inr \<lparr>maxN = maxDepth st, locationsN = locationsS st\<rparr>)"

section \<open>Duplicated lines\<close>

text \<open>
  A \<open>Map<string, number[]>\<close> keeps its keys in the order they were first set: an
  association list. \<open>set\<close> on a key that is there replaces its value in place.
\<close>

type_synonym dupmap = "(jsstring \<times> nat list) list"

definition mapHas :: "dupmap \<Rightarrow> jsstring \<Rightarrow> bool" where
  "mapHas m k = (map_of m k \<noteq> None)"

definition mapGet :: "dupmap \<Rightarrow> jsstring \<Rightarrow> nat list option" where
  "mapGet m k = map_of m k"

fun mapSet :: "dupmap \<Rightarrow> jsstring \<Rightarrow> nat list \<Rightarrow> dupmap" where
  "mapSet [] k v = [(k, v)]"
| "mapSet ((k', v') # m) k v = (if k' = k then (k, v) # m else (k', v') # mapSet m k v)"

definition minLineLength :: nat where
  "minLineLength = 3"

text \<open>\<^verbatim>\<open>/^[\)\}\;]+$/\<close>\<close>

definition trivialRegex :: regex where
  "trivialRegex = seqs [Bol, Plus (OneOf (js '')};'')), Eol]"

text \<open>
  The body of the loop over the lines. \<open>duplicates.get(trimmedLine)!.push(i + 1)\<close> raises on
  a key that is not in the map.
\<close>

definition duplicateLine :: "jsstring \<Rightarrow> nat \<Rightarrow> dupmap \<Rightarrow> error + dupmap" where
  "duplicateLine srcLine i duplicates =
     (let trimmedLine = trim srcLine
      in if length trimmedLine < minLineLength \<or> test trivialRegex trimmedLine
         then Inr duplicates
         else (let d1 = (if \<not> mapHas duplicates trimmedLine
                         then mapSet duplicates trimmedLine []
                         else duplicates)
               in case mapGet d1 trimmedLine of
                    None \<Rightarrow> Inl TypeError
                  | Some ls \<Rightarrow> Inr (mapSet d1 trimmedLine (ls @ [i + 1]))))"

fun duplicateLoop :: "nat \<Rightarrow> jsstring list \<Rightarrow> dupmap \<Rightarrow> error + dupmap" where
  "duplicateLoop i [] duplicates = Inr duplicates"
| "duplicateLoop i (l # ls) duplicates =
     (case duplicateLine l i duplicates of
        Inl e \<Rightarrow> Inl e
      | Inr d \<Rightarrow> duplicateLoop (i + 1) ls d)"

definition findDuplicatedCode :: "jsstring list \<Rightarrow> error + DuplicateBlock list" where
  "findDuplicatedCode lines =
     (case duplicateLoop 0 lines [] of
        Inl e \<Rightarrow> Inl e
      | Inr duplicates \<Rightarrow>
          Inr (map (\<lambda>(c, ls). \<lparr>codeD = c, occurrences = length ls, locationsD = ls\<rparr>)
                 (filter (\<lambda>(c, ls). 1 < length ls) duplicates)))"

section \<open>Documentation coverage\<close>

text \<open>
  \<^verbatim>\<open>/function\s+\w+/\<close>, \<^verbatim>\<open>/class\s+\w+/\<close>, \<^verbatim>\<open>/interface\s+\w+/\<close>, \<^verbatim>\<open>/\bif\b/\<close>,
  \<^verbatim>\<open>/\bfor\b/\<close>, \<^verbatim>\<open>/\bwhile\b/\<close>, \<^verbatim>\<open>/\bswitch\b/\<close>
\<close>

definition complexPatterns :: "regex list" where
  "complexPatterns =
     [seqs [Lit (js ''function''), Plus Space, Plus WordCh],
      seqs [Lit (js ''class''), Plus Space, Plus WordCh],
      seqs [Lit (js ''interface''), Plus Space, Plus WordCh],
      seqs [WordBoundary, Lit (js ''if''), WordBoundary],
      seqs [WordBoundary, Lit (js ''for''), WordBoundary],
      seqs [WordBoundary, Lit (js ''while''), WordBoundary],
      seqs [WordBoundary, Lit (js ''switch''), WordBoundary]]"

definition startsWith :: "jsstring \<Rightarrow> jsstring \<Rightarrow> bool" where
  "startsWith s p = (take (length p) s = p)"

definition isComment :: "jsstring \<Rightarrow> bool" where
  "isComment l = (startsWith l (js ''//'') \<or> startsWith l (js ''/*'') \<or> startsWith l (js ''*''))"

definition isComplex :: "jsstring \<Rightarrow> bool" where
  "isComplex l = list_ex (\<lambda>pattern. test pattern l) complexPatterns"

record dstate =
  totalS :: nat
  documentedS :: nat
  lastLineWasComment :: bool

definition documentationLine :: "jsstring \<Rightarrow> nat \<Rightarrow> dstate \<Rightarrow> dstate" where
  "documentationLine srcLine i st =
     (let l = trim srcLine;
          st1 = (if isComplex l
                 then (let st2 = st\<lparr>totalS := totalS st + 1\<rparr>
                       in if lastLineWasComment st2
                          then st2\<lparr>documentedS := documentedS st2 + 1\<rparr>
                          else st2)
                 else st)
      in st1\<lparr>lastLineWasComment := isComment l\<rparr>)"

text \<open>
  \<open>(documentedComplexLines / totalComplexLines) * 100\<close>: the division rounds, and the
  product rounds what the division gave.
\<close>

definition analyzeDocumentation :: "jsstring list \<Rightarrow> DocumentationCoverage" where
  "analyzeDocumentation lines =
     (let st = forEach documentationLine 0 lines
                 \<lparr>totalS = 0, documentedS = 0, lastLineWasComment = False\<rparr>
      in \<lparr>totalComplexLines = totalS st,
          documentedComplexLines = documentedS st,
          percentage = (if totalS st = 0 then 100
                        else roundDouble
                               (roundDouble (of_nat (documentedS st) / of_nat (totalS st))
                                  * 100))\<rparr>)"

section \<open>The report\<close>

text \<open>
  The four analyzers run in the order of the object literal; the first exception is the
  exception of \<open>analyzeCode\<close>.
\<close>

definition analyzeCode :: "nat \<Rightarrow> jsstring \<Rightarrow> error + CodeMetrics" where
  "analyzeCode maxArguments sourceCode =
     (let lines = split sourceCode newline;
          complexity = calculateCyclomaticComplexity sourceCode
      in case calculateMaxNestingDepthE maxArguments lines of
           Inl e \<Rightarrow> Inl e
         | Inr nesting \<Rightarrow>
             (case findDuplicatedCode lines of
                Inl e \<Rightarrow> Inl e
              | Inr duplicates \<Rightarrow>
                  Inr \<lparr>cyclomaticComplexity = complexity,
                       maxNestingDepth = nesting,
                       duplicatedCodeBlocks = duplicates,
                       documentationCoverage = analyzeDocumentation lines\<rparr>))"

section \<open>Notions the properties are stated with\<close>

subsection \<open>The states the nesting scan goes through\<close>

text \<open>
  \<open>scanState lines\<close> is the state of \<open>calculateMaxNestingDepth\<close> after the callback has
  run on all of \<open>lines\<close>, and \<open>afterOpen lines k\<close> the state in the middle of the callback
  on line \<open>k\<close>: after the \<open>if\<close> on the control structures, before the loop over the
  closing braces. That is where the depth of a line is highest.
\<close>

definition scanState :: "jsstring list \<Rightarrow> nstate" where
  "scanState lines = forEach nestingLine 0 lines nestingInit"

definition afterOpen :: "jsstring list \<Rightarrow> nat \<Rightarrow> nstate" where
  "afterOpen lines k = openRule (trim (lines ! k)) k (scanState (take k lines))"

text \<open>
  Every state of the scan in order: for each line the state after the opening rule,
  then the state after each closing brace.
\<close>

fun closeTrace :: "nat \<Rightarrow> nstate \<Rightarrow> nstate list" where
  "closeTrace 0 st = []"
| "closeTrace (Suc n) st = closeBrace st # closeTrace n (closeBrace st)"

definition lineTrace :: "jsstring \<Rightarrow> nat \<Rightarrow> nstate \<Rightarrow> nstate list" where
  "lineTrace srcLine index st =
     (let trimmedLine = trim srcLine;
          st1 = openRule trimmedLine index st
      in st1 # closeTrace (matchCount closeRegex trimmedLine 0) st1)"

fun scanTrace :: "nat \<Rightarrow> jsstring list \<Rightarrow> nstate \<Rightarrow> nstate list" where
  "scanTrace index [] st = []"
| "scanTrace index (l # ls) st =
     lineTrace l index st @ scanTrace (index + 1) ls (nestingLine l index st)"

text \<open>The invariant of the scan, and what it has recorded about the deepest line so far.\<close>

definition nestingInv :: "nstate \<Rightarrow> bool" where
  "nestingInv st =
     (currentDepth st = int (length (stack st)) \<and> maxDepth st = int (length (locationsS st))
      \<and> currentDepth st \<le> maxDepth st
      \<and> map depth (locationsS st) = map Some [1..<Suc (length (locationsS st))])"

definition firstMax :: "jsstring list \<Rightarrow> bool" where
  "firstMax ls =
     (let st = scanState ls
      in (\<forall>j<length ls. currentDepth (afterOpen ls j) \<le> maxDepth st)
         \<and> (0 < maxDepth st \<longrightarrow>
              (\<exists>k<length ls. currentDepth (afterOpen ls k) = maxDepth st
                 \<and> locationsS st = snapshot (stack (afterOpen ls k))
                 \<and> (\<forall>j<k. currentDepth (afterOpen ls j) < maxDepth st))))"

subsection \<open>Matches as a relation, and whole words\<close>

text \<open>
  \<open>matches r s i e\<close>: the regular expression \<open>r\<close> matches \<open>s\<close> from position \<open>i\<close> to
  position \<open>e\<close>. \<open>run c s i\<close> is the length of the longest run of code units of the class
  \<open>c\<close> that starts at \<open>i\<close>.
\<close>

definition matches :: "regex \<Rightarrow> jsstring \<Rightarrow> nat \<Rightarrow> nat \<Rightarrow> bool" where
  "matches r s i e = (e \<in> set (ends r s i))"

definition run :: "cclass \<Rightarrow> jsstring \<Rightarrow> nat \<Rightarrow> nat" where
  "run c s i = length (takeWhile (inClass c) (drop i s))"

text \<open>
  A whole-word occurrence of \<open>w\<close> at position \<open>i\<close> of \<open>s\<close>: the text \<open>w\<close> stands there with
  no word character right before it and none right after it.
\<close>

definition wholeWordAt :: "jsstring \<Rightarrow> jsstring \<Rightarrow> nat \<Rightarrow> bool" where
  "wholeWordAt w s i =
     (take (length w) (drop i s) = w \<and> \<not> wordBefore s i \<and> \<not> wordAt s (i + length w))"

definition containsWholeWord :: "jsstring \<Rightarrow> jsstring \<Rightarrow> bool" where
  "containsWholeWord w s = list_ex (wholeWordAt w s) [0..<length s]"

definition wholeWordCount :: "jsstring \<Rightarrow> jsstring \<Rightarrow> nat" where
  "wholeWordCount w s = length (filter (wholeWordAt w s) [0..<length s])"

definition isWord :: "jsstring \<Rightarrow> bool" where
  "isWord w = (w \<noteq> [] \<and> list_all isWordChar w)"

text \<open>\<^verbatim>\<open>\b(w1|w2|...)\b\<close>, the shape of the keyword patterns.\<close>

definition wordRegex :: "jsstring list \<Rightarrow> regex" where
  "wordRegex ws = seqs [WordBoundary, alts ws, WordBoundary]"

text \<open>
  The occurrences of a text \<open>w\<close> in \<open>s\<close>, read from left to right: an occurrence is
  counted and the reading goes on after it, so two counted occurrences never overlap.
\<close>

function occurrencesOf :: "jsstring \<Rightarrow> jsstring \<Rightarrow> nat" where
  "occurrencesOf w s =
     (if w = [] \<or> s = [] then 0
      else if take (length w) s = w then 1 + occurrencesOf w (drop (length w) s)
      else occurrencesOf w (tl s))"
  by pat_completeness auto
termination
  by (relation "measure (\<lambda>(w, s). length s)") auto

declare occurrencesOf.simps [simp del]

text \<open>
  For the count of the matches of an alternation: \<open>startsIn r s C\<close> when a match of \<open>r\<close> in
  \<open>s\<close> can only start on a code unit of \<open>C\<close>, \<open>covers r s C\<close> when the first match found
  at a position is not empty and made of code units of \<open>C\<close>.
\<close>

definition startsIn :: "regex \<Rightarrow> jsstring \<Rightarrow> cu set \<Rightarrow> bool" where
  "startsIn r s C = (\<forall>k. ends r s k \<noteq> [] \<longrightarrow> k < length s \<and> s ! k \<in> C)"

definition covers :: "regex \<Rightarrow> jsstring \<Rightarrow> cu set \<Rightarrow> bool" where
  "covers r s C =
     (\<forall>j e es. ends r s j = e # es \<longrightarrow>
        j < e \<and> (\<forall>k. j \<le> k \<and> k < e \<longrightarrow> k < length s \<and> s ! k \<in> C))"

subsection \<open>The lines with a given trimmed text\<close>

text \<open>
  \<open>linesWithText lines c\<close>: the 1-based numbers, ascending, of the lines whose trimmed
  text is exactly \<open>c\<close>. A trimmed text is \<open>eligible\<close> when the loop of
  \<open>findDuplicatedCode\<close> does not skip it. \<open>dupInv\<close> is the invariant of that loop: the
  map holds exactly the eligible trimmed texts read so far, each with its lines.
\<close>

definition linesWithText :: "jsstring list \<Rightarrow> jsstring \<Rightarrow> nat list" where
  "linesWithText lines c =
     map (\<lambda>i. i + 1) (filter (\<lambda>i. trim (lines ! i) = c) [0..<length lines])"

definition eligible :: "jsstring \<Rightarrow> bool" where
  "eligible c = (\<not> (length c < minLineLength \<or> test trivialRegex c))"

definition dupInv :: "jsstring list \<Rightarrow> dupmap \<Rightarrow> bool" where
  "dupInv xs d =
     (distinct (map fst d) \<and>
      (\<forall>c. map_of d c =
            (if eligible c \<and> c \<in> trim ` set xs then Some (linesWithText xs c) else None)))"

subsection \<open>The complex lines and the documented ones\<close>

text \<open>
  The number of lines whose trimmed text is complex, and the number of those whose
  preceding line, trimmed, is a comment (the first line has no preceding line).
\<close>

definition complexLineCount :: "jsstring list \<Rightarrow> nat" where
  "complexLineCount lines =
     length (filter (\<lambda>i. isComplex (trim (lines ! i))) [0..<length lines])"

definition documentedLineCount :: "jsstring list \<Rightarrow> nat" where
  "documentedLineCount lines =
     length (filter (\<lambda>i. isComplex (trim (lines ! i)) \<and> 0 < i
                          \<and> isComment (trim (lines ! (i - 1))))
               [0..<length lines])"

definition docInit :: dstate where
  "docInit = \<lparr>totalS = 0, documentedS = 0, lastLineWasComment = False\<rparr>"

text \<open>
  Twenty complex lines of which the first eleven follow a comment line: eleven times
  \<open>// a\<close> and \<open>if (a)\<close>, then nine times \<open>if (a)\<close>.
\<close>

definition elevenOfTwenty :: "jsstring list" where
  "elevenOfTwenty = concat (replicate 11 [js ''// a'', js ''if (a)'']) @ replicate 9 (js ''if (a)'')"

subsection \<open>What a line adds to the complexity\<close>

text \<open>
  The \<open>else\<close> test of the callback, the location the callback pushes for line \<open>i\<close>, the
  locations a line gets (one when the token scan matches, one more when the \<open>else\<close> test
  holds) and the number a line adds to the total.
\<close>

definition countsElse :: "jsstring \<Rightarrow> bool" where
  "countsElse l = (test elseRegex l \<and> \<not> test elseIfRegex l)"

definition locationOf :: "jsstring list \<Rightarrow> nat \<Rightarrow> ComplexityLocation" where
  "locationOf lines i = \<lparr>line = i + 1, code = trim (lines ! i), depth = None\<rparr>"

definition lineLocations :: "jsstring list \<Rightarrow> nat \<Rightarrow> ComplexityLocation list" where
  "lineLocations lines i =
     (if test controlFlowRegex (lines ! i) then [locationOf lines i] else [])
     @ (if countsElse (lines ! i) then [locationOf lines i] else [])"

definition lineScore :: "jsstring \<Rightarrow> nat" where
  "lineScore l = matchCount controlFlowRegex l 0 + (if countsElse l then 1 else 0)"

definition complexityInit :: cstate where
  "complexityInit = \<lparr>complexity = 1, locationsC = []\<rparr>"

text \<open>
  The count in the words of the specification: the whole-word occurrences of the five
  keywords, the occurrences of \<open>&&\<close> and of \<open>||\<close>, and the \<open>?\<close> characters of a line.
\<close>

definition decisionKeywords :: "jsstring list" where
  "decisionKeywords = [js ''if'', js ''while'', js ''for'', js ''case'', js ''catch'']"

definition questionMarks :: "jsstring \<Rightarrow> nat" where
  "questionMarks s = length (filter (\<lambda>c. c = 0x3F) s)"

definition tokenOccurrences :: "jsstring \<Rightarrow> nat" where
  "tokenOccurrences s =
     sum_list (map (\<lambda>w. wholeWordCount w s) decisionKeywords)
     + occurrencesOf (js ''&&'') s + occurrencesOf (js ''||'') s + questionMarks s"

text \<open>
  An \<open>else\<close> is followed immediately by \<open>if\<close> when white space and then the word \<open>if\<close>
  come right after it (\<^verbatim>\<open>\s+if\b\<close>); \<open>i\<close> is the position after the \<open>else\<close>. A bare
  \<open>else\<close> is a whole-word \<open>else\<close> that is not followed so. \<open>claimedTotal\<close> is the total as
  the specification words it: one more for each line that contains a bare \<open>else\<close>.
\<close>

definition followedByIf :: "jsstring \<Rightarrow> nat \<Rightarrow> bool" where
  "followedByIf s i = (ends (seqs [Plus Space, Lit (js ''if''), WordBoundary]) s i \<noteq> [])"

definition bareElseAt :: "jsstring \<Rightarrow> nat \<Rightarrow> bool" where
  "bareElseAt s i = (wholeWordAt (js ''else'') s i \<and> \<not> followedByIf s (i + 4))"

definition containsBareElse :: "jsstring \<Rightarrow> bool" where
  "containsBareElse s = list_ex (bareElseAt s) [0..<length s]"

definition containsElseIf :: "jsstring \<Rightarrow> bool" where
  "containsElseIf s =
     list_ex (\<lambda>i. wholeWordAt (js ''else'') s i \<and> followedByIf s (i + 4)) [0..<length s]"

definition claimedTotal :: "jsstring \<Rightarrow> nat" where
  "claimedTotal src =
     1 + sum_list (map (\<lambda>l. tokenOccurrences l + (if containsBareElse l then 1 else 0))
                    (split src newline))"

subsection \<open>The invariants of the data model\<close>

text \<open>
  What the specification's data model asks of a report: a total of at least 1; a
  nesting maximum that is the number of its locations, tagged 1 to the maximum; blocks
  of at least two occurrences, as many as their locations, which ascend; no more
  documented lines than complex ones and a percentage between 0 and 100, which is 100
  when there is no complex line.
\<close>

definition wellFormed :: "CodeMetrics \<Rightarrow> bool" where
  "wellFormed m =
     (1 \<le> total (cyclomaticComplexity m)
      \<and> 0 \<le> maxN (maxNestingDepth m)
      \<and> int (length (locationsN (maxNestingDepth m))) = maxN (maxNestingDepth m)
      \<and> map depth (locationsN (maxNestingDepth m))
          = map Some [1..<Suc (nat (maxN (maxNestingDepth m)))]
      \<and> list_all (\<lambda>b. 2 \<le> occurrences b \<and> occurrences b = length (locationsD b)
                        \<and> sorted_wrt (<) (locationsD b))
           (duplicatedCodeBlocks m)
      \<and> documentedComplexLines (documentationCoverage m)
          \<le> totalComplexLines (documentationCoverage m)
      \<and> 0 \<le> percentage (documentationCoverage m)
      \<and> percentage (documentationCoverage m) \<le> 100
      \<and> (totalComplexLines (documentationCoverage m) = 0
            \<longrightarrow> percentage (documentationCoverage m) = 100))"

subsection \<open>A deeply nested text\<close>

text \<open>
  \<^verbatim>\<open>'if (x) {\n'.repeat(n)\<close>: \<open>n\<close> lines that open a block each, and none that closes
  one.
\<close>

definition deepNesting :: "nat \<Rightarrow> jsstring" where
  "deepNesting n = concat (replicate n (js ''if (x) {'' @ [newline]))"
section \<open>Properties of the rounding\<close>

lemma roundEven_between: "\<lfloor>y\<rfloor> \<le> roundEven y \<and> roundEven y \<le> \<lfloor>y\<rfloor> + 1"
  by (simp add: roundEven_def Let_def)

lemma roundEven_of_int: "roundEven (of_int m) = m"
  by (simp add: roundEven_def Let_def)

lemma roundEven_le: "y \<le> of_int m \<Longrightarrow> roundEven y \<le> m"
proof (cases "y = of_int m")
  case True
  then show ?thesis by (simp add: roundEven_of_int)
next
  case False
  assume "y \<le> of_int m"
  with False have "y < of_int m" by simp
  then have "\<lfloor>y\<rfloor> < m" by (simp add: floor_less_iff)
  with roundEven_between[of y] show ?thesis by simp
qed

lemma roundEven_nonneg: "0 \<le> y \<Longrightarrow> 0 \<le> roundEven y"
proof -
  assume "0 \<le> y"
  then have "0 \<le> \<lfloor>y\<rfloor>" by simp
  with roundEven_between[of y] show ?thesis by linarith
qed

lemma pow2_bitlen:
  assumes "0 < p"
  shows "power_int 2 (bitlen p - 1) \<le> (of_int p :: rat)" and "(of_int p :: rat) < power_int 2 (bitlen p)"
proof -
  from bitlen_bounds[OF assms] have b: "2 ^ nat (bitlen p - 1) \<le> p" "p < 2 ^ nat (bitlen p)"
    by simp_all
  from assms have ge: "1 \<le> bitlen p"
    using bitlen_eq_zero_iff[of p] bitlen_nonneg[of p] by linarith
  have "(of_int (2 ^ nat (bitlen p - 1)) :: rat) \<le> of_int p"
    using b(1) by (simp only: of_int_le_iff)
  then show "power_int 2 (bitlen p - 1) \<le> (of_int p :: rat)"
    using ge by (simp add: power_int_def)
  have "(of_int p :: rat) < of_int (2 ^ nat (bitlen p))"
    using b(2) by (simp only: of_int_less_iff)
  then show "(of_int p :: rat) < power_int 2 (bitlen p)"
    using ge by (simp add: power_int_def)
qed

lemma ilog2_bounds:
  assumes "0 < x"
  shows "power_int 2 (ilog2 x) \<le> x \<and> x < power_int 2 (ilog2 x + 1)"
proof -
  obtain p q where pq: "quotient_of x = (p, q)" by (cases "quotient_of x")
  then have q: "0 < q" by (rule quotient_of_denom_pos)
  from pq have x: "x = of_int p / of_int q" by (rule quotient_of_div)
  with assms q have p: "0 < p" by (simp add: zero_less_divide_iff)
  let ?a = "bitlen p - bitlen q"
  have qpos: "(0::rat) < of_int q" using q by simp
  have "x < power_int 2 (bitlen p) / power_int 2 (bitlen q - 1)"
  proof -
    have "x < power_int 2 (bitlen p) / of_int q"
      unfolding x using pow2_bitlen(2)[OF p] qpos by (simp add: divide_strict_right_mono)
    also have "\<dots> \<le> power_int 2 (bitlen p) / power_int 2 (bitlen q - 1)"
      using pow2_bitlen(1)[OF q] by (intro frac_le) simp_all
    finally show ?thesis .
  qed
  also have "\<dots> = power_int 2 (?a + 1)"
    by (simp add: power_int_diff[symmetric] algebra_simps)
  finally have up: "x < power_int 2 (?a + 1)" .
  have "power_int 2 (bitlen p - 1) / power_int 2 (bitlen q) \<le> x"
  proof -
    have "power_int 2 (bitlen p - 1) / power_int 2 (bitlen q)
        \<le> power_int 2 (bitlen p - 1) / (of_int q :: rat)"
      using pow2_bitlen(2)[OF q] qpos by (intro frac_le) simp_all
    also have "\<dots> \<le> x"
      unfolding x using pow2_bitlen(1)[OF p] qpos by (simp add: divide_right_mono)
    finally show ?thesis .
  qed
  moreover have "power_int 2 (bitlen p - 1) / power_int (2::rat) (bitlen q) = power_int 2 (?a - 1)"
    by (simp add: power_int_diff[symmetric] algebra_simps)
  ultimately have low: "power_int 2 (?a - 1) \<le> x" by simp
  show ?thesis
  proof (cases "power_int 2 ?a \<le> x")
    case True
    then have "ilog2 x = ?a" by (simp add: ilog2_def pq)
    with True up show ?thesis by simp
  next
    case False
    then have "ilog2 x = ?a - 1" by (simp add: ilog2_def pq)
    with False low show ?thesis by simp
  qed
qed

lemma ilog2_mono:
  assumes "0 < x" and "x \<le> r"
  shows "ilog2 x \<le> ilog2 r"
proof -
  from assms have r: "0 < r" by simp
  from ilog2_bounds[OF assms(1)] ilog2_bounds[OF r] assms(2)
  have "power_int (2::rat) (ilog2 x) < power_int 2 (ilog2 r + 1)" by linarith
  then have "ilog2 x < ilog2 r + 1"
    by (metis less_le_not_le linorder_not_less one_le_numeral power_int_increasing)
  then show ?thesis by simp
qed

lemma roundDouble_nonneg: "0 \<le> x \<Longrightarrow> 0 \<le> roundDouble x"
  by (simp add: roundDouble_def Let_def roundEven_nonneg)

lemma div_of_product: "r = a * b \<Longrightarrow> b \<noteq> 0 \<Longrightarrow> r / b = (a::rat)"
  by simp

lemma roundDouble_le:
  assumes x: "0 < x" and le: "x \<le> r"
    and rep: "r = of_int m * power_int 2 (ilog2 r - 52)"
  shows "roundDouble x \<le> r"
proof -
  from x le have r: "0 < r" by simp
  let ?e = "ilog2 x - 52"
  have pos: "(0::rat) < power_int 2 k" for k by simp
  have rd: "roundDouble x = of_int (roundEven (x / power_int 2 ?e)) * power_int 2 ?e"
    using x by (simp add: roundDouble_def Let_def)
  from ilog2_mono[OF x le] consider "ilog2 x = ilog2 r" | "ilog2 x < ilog2 r" by linarith
  then show ?thesis
  proof cases
    case 1
    have "x / power_int 2 ?e \<le> r / power_int 2 ?e"
      using le pos[of ?e] by (simp add: divide_right_mono)
    also have "r / power_int 2 ?e = of_int m"
      unfolding 1 by (rule div_of_product[OF rep]) simp
    finally have "roundEven (x / power_int 2 ?e) \<le> m"
      by (rule roundEven_le)
    then have "(of_int (roundEven (x / power_int 2 ?e)) :: rat) \<le> of_int m"
      by (simp only: of_int_le_iff)
    then have "roundDouble x \<le> of_int m * power_int 2 ?e"
      unfolding rd using pos[of ?e] by (simp add: mult_right_mono)
    with rep 1 show ?thesis by simp
  next
    case 2
    have "x / power_int 2 ?e < power_int 2 (ilog2 x + 1) / power_int 2 ?e"
      using ilog2_bounds[OF x] pos[of ?e] by (simp add: divide_strict_right_mono)
    also have "\<dots> = power_int 2 53"
      by (simp add: power_int_diff[symmetric])
    finally have "x / power_int 2 ?e \<le> of_int (2 ^ 53)"
      by simp
    then have "roundEven (x / power_int 2 ?e) \<le> 2 ^ 53"
      by (rule roundEven_le)
    then have "(of_int (roundEven (x / power_int 2 ?e)) :: rat) \<le> of_int (2 ^ 53)"
      by (simp only: of_int_le_iff)
    then have "roundDouble x \<le> of_int (2 ^ 53) * power_int 2 ?e"
      unfolding rd using pos[of ?e] by (simp add: mult_right_mono)
    also have "of_int (2 ^ 53) * power_int (2::rat) ?e = power_int 2 (ilog2 x + 1)"
    proof -
      have "power_int (2::rat) (53 + ?e) = power_int 2 53 * power_int 2 ?e"
        by (rule power_int_add) simp
      moreover have "53 + ?e = ilog2 x + 1" by simp
      moreover have "power_int (2::rat) 53 = of_int (2 ^ 53)" by simp
      ultimately show ?thesis by metis
    qed
    also have "\<dots> \<le> power_int 2 (ilog2 r)"
      using 2 by (intro power_int_increasing) simp_all
    also have "\<dots> \<le> r"
      using ilog2_bounds[OF r] by simp
    finally show ?thesis .
  qed
qed

lemma ilog2_values: "ilog2 1 = 0" "ilog2 100 = 6"
  by code_simp+

lemma roundDouble_le_1: "0 \<le> x \<Longrightarrow> x \<le> 1 \<Longrightarrow> roundDouble x \<le> 1"
proof (cases "x = 0")
  case True
  then show ?thesis by (simp add: roundDouble_def)
next
  case False
  assume "0 \<le> x" "x \<le> 1"
  with False have "0 < x" by simp
  then show ?thesis
    using \<open>x \<le> 1\<close> by (rule roundDouble_le[where m = "2 ^ 52"]) (simp add: ilog2_values)
qed

lemma roundDouble_le_100: "0 \<le> x \<Longrightarrow> x \<le> 100 \<Longrightarrow> roundDouble x \<le> 100"
proof (cases "x = 0")
  case True
  then show ?thesis by (simp add: roundDouble_def)
next
  case False
  assume "0 \<le> x" "x \<le> 100"
  with False have "0 < x" by simp
  then show ?thesis
    using \<open>x \<le> 100\<close> by (rule roundDouble_le[where m = "100 * 2 ^ 46"]) (simp add: ilog2_values)
qed

lemma roundDouble_fixed: "roundDouble 0 = 0" "roundDouble 1 = 1" "roundDouble 100 = 100"
  by code_simp+

lemma roundEven_error: "\<bar>of_int (roundEven y) - y\<bar> \<le> 1 / 2"
proof -
  have "of_int \<lfloor>y\<rfloor> \<le> y" "y < of_int \<lfloor>y\<rfloor> + 1" by linarith+
  then show ?thesis
    by (auto simp add: roundEven_def Let_def abs_le_iff)
qed

lemma roundDouble_error:
  assumes "0 < x"
  shows "\<bar>roundDouble x - x\<bar> \<le> x / 2 ^ 53"
proof -
  let ?e = "ilog2 x - 52"
  let ?u = "power_int 2 ?e :: rat"
  have u: "0 < ?u" by (simp add: zero_less_power_int)
  from assms have rd: "roundDouble x = of_int (roundEven (x / ?u)) * ?u"
    by (simp add: roundDouble_def Let_def)
  have "roundDouble x - x = (of_int (roundEven (x / ?u)) - x / ?u) * ?u"
    using u by (simp add: rd algebra_simps)
  then have "\<bar>roundDouble x - x\<bar> = \<bar>of_int (roundEven (x / ?u)) - x / ?u\<bar> * ?u"
    using u by (simp add: abs_mult)
  also have "\<dots> \<le> (1 / 2) * ?u"
    using roundEven_error[of "x / ?u"] u by (intro mult_right_mono) simp_all
  finally have 1: "\<bar>roundDouble x - x\<bar> \<le> ?u / 2" by simp
  have "(power_int 2 (?e + 52) :: rat) = power_int 2 ?e * power_int 2 52"
    by (rule power_int_add) simp
  moreover have "?e + 52 = ilog2 x" by simp
  moreover have "(power_int 2 52 :: rat) = 2 ^ 52" by (simp add: power_int_def)
  ultimately have "?u * 2 ^ 52 = power_int 2 (ilog2 x)" by metis
  with ilog2_bounds[OF assms] have "?u * 2 ^ 52 \<le> x" by simp
  then have "?u \<le> x / 2 ^ 52" by (simp add: pos_le_divide_eq)
  then have "?u / 2 \<le> x / 2 ^ 53" by simp
  with 1 show ?thesis by linarith
qed

lemma two_roundings:
  fixes a q p c :: rat
  assumes "\<bar>a - q\<bar> \<le> c" "\<bar>p - a * 100\<bar> \<le> 100 / 2 ^ 53" "c = 1 / 2 ^ 53"
  shows "\<bar>p - 100 * q\<bar> \<le> 200 * c"
  using assms by linarith

lemma percentage_error:
  assumes "0 \<le> q" "q \<le> 1"
  shows "\<bar>roundDouble (roundDouble q * 100) - 100 * q\<bar> \<le> 100 / 2 ^ 52"
proof (cases "q = 0")
  case True
  then show ?thesis by (simp add: roundDouble_def)
next
  case False
  with assms have q: "0 < q" by simp
  let ?q1 = "roundDouble q"
  have q1: "0 \<le> ?q1" "?q1 \<le> 1"
    using roundDouble_nonneg[of q] roundDouble_le_1[of q] assms by simp_all
  have e1: "\<bar>?q1 - q\<bar> \<le> q / 2 ^ 53" by (rule roundDouble_error[OF q])
  have e2: "\<bar>roundDouble (?q1 * 100) - ?q1 * 100\<bar> \<le> ?q1 * 100 / 2 ^ 53"
  proof (cases "?q1 = 0")
    case True
    then show ?thesis by (simp add: roundDouble_def)
  next
    case False
    with q1 have "0 < ?q1 * 100" by simp
    then show ?thesis by (rule roundDouble_error)
  qed
  have "q / 2 ^ 53 \<le> 1 / 2 ^ 53" using assms by (simp add: divide_right_mono)
  with e1 have b1: "\<bar>?q1 - q\<bar> \<le> 1 / 2 ^ 53" by linarith
  have "?q1 * 100 / 2 ^ 53 \<le> 100 / 2 ^ 53" using q1 by (simp add: divide_right_mono)
  with e2 have b2: "\<bar>roundDouble (?q1 * 100) - ?q1 * 100\<bar> \<le> 100 / 2 ^ 53" by linarith
  have "\<bar>roundDouble (?q1 * 100) - 100 * q\<bar> \<le> 200 * (1 / 2 ^ 53)"
    using b1 b2 by (rule two_roundings) simp
  then show ?thesis by simp
qed


section \<open>Properties of the matcher\<close>

lemma length_takeWhile_all: "(length (takeWhile P xs) = length xs) = (\<forall>x\<in>set xs. P x)"
proof (induction xs)
  case Nil
  show ?case by simp
next
  case (Cons x xs)
  have "length (takeWhile P xs) \<le> length xs" by (rule length_takeWhile_le)
  with Cons show ?case by auto
qed

lemma matches_Lit: "matches (Lit w) s i e = (e = i + length w \<and> take (length w) (drop i s) = w)"
  by (auto simp: matches_def)

lemma matches_Plus: "matches (Plus c) s i e = (i < e \<and> e \<le> i + run c s i)"
proof -
  have "(e \<in> (+) i ` {1..<Suc (run c s i)}) = (i < e \<and> e \<le> i + run c s i)"
  proof
    assume "e \<in> (+) i ` {1..<Suc (run c s i)}"
    then show "i < e \<and> e \<le> i + run c s i" by auto
  next
    assume a: "i < e \<and> e \<le> i + run c s i"
    then have "e = i + (e - i)" "e - i \<in> {1..<Suc (run c s i)}" by auto
    then show "e \<in> (+) i ` {1..<Suc (run c s i)}" by (rule image_eqI)
  qed
  moreover have "set (ends (Plus c) s i) = (+) i ` {1..<Suc (run c s i)}"
    by (simp only: ends.simps run_def set_rev set_map set_upt)
  ultimately show ?thesis by (simp only: matches_def)
qed

lemma matches_Star: "matches (Star c) s i e = (i \<le> e \<and> e \<le> i + run c s i)"
proof -
  have "(e \<in> (+) i ` {0..<Suc (run c s i)}) = (i \<le> e \<and> e \<le> i + run c s i)"
  proof
    assume "e \<in> (+) i ` {0..<Suc (run c s i)}"
    then show "i \<le> e \<and> e \<le> i + run c s i" by auto
  next
    assume a: "i \<le> e \<and> e \<le> i + run c s i"
    then have "e = i + (e - i)" "e - i \<in> {0..<Suc (run c s i)}" by auto
    then show "e \<in> (+) i ` {0..<Suc (run c s i)}" by (rule image_eqI)
  qed
  moreover have "set (ends (Star c) s i) = (+) i ` {0..<Suc (run c s i)}"
    by (simp only: ends.simps run_def set_rev set_map set_upt)
  ultimately show ?thesis by (simp only: matches_def)
qed

lemma matches_WordBoundary: "matches WordBoundary s i e = (e = i \<and> wordBefore s i \<noteq> wordAt s i)"
  by (auto simp: matches_def)

lemma matches_Bol: "matches Bol s i e = (e = i \<and> i = 0)"
  by (auto simp: matches_def)

lemma matches_Eol: "matches Eol s i e = (e = i \<and> i = length s)"
  by (auto simp: matches_def)

lemma matches_Seq: "matches (Seq a b) s i e = (\<exists>m. matches a s i m \<and> matches b s m e)"
  by (auto simp: matches_def)

lemma matches_Alt: "matches (Alt a b) s i e = (matches a s i e \<or> matches b s i e)"
  by (auto simp: matches_def)

lemmas matches_simps = matches_Lit matches_Plus matches_Star matches_WordBoundary matches_Bol
  matches_Eol matches_Seq matches_Alt

lemma test_matches: "test r s = (\<exists>i\<le>length s. \<exists>e. matches r s i e)"
proof -
  have "(ends r s i \<noteq> []) = (\<exists>e. matches r s i e)" for i
    by (cases "ends r s i") (auto simp: matches_def)
  then show ?thesis
    by (auto simp: test_def list_ex_iff less_Suc_eq_le simp del: upt_Suc)
qed

lemma run_le: "i + run c s i \<le> max i (length s)"
proof -
  have "run c s i \<le> length (drop i s)"
    unfolding run_def by (rule length_takeWhile_le)
  then show ?thesis by simp
qed

lemma run_all: "(run c s 0 = length s) = (\<forall>x\<in>set s. inClass c x)"
  by (simp add: run_def length_takeWhile_all)

lemma test_trivial: "test trivialRegex s = (s \<noteq> [] \<and> set s \<subseteq> set (js '')};''))"
proof -
  have le: "run (OneOf (js '')};'')) s 0 \<le> length s"
    using run_le[of 0 _ s] by simp
  have "test trivialRegex s = (0 < length s \<and> length s \<le> run (OneOf (js '')};'')) s 0)"
    by (auto simp: test_matches trivialRegex_def matches_simps)
  also have "\<dots> = (s \<noteq> [] \<and> run (OneOf (js '')};'')) s 0 = length s)"
    using le by auto
  finally show ?thesis
    by (auto simp: run_all)
qed

lemma literal_at:
  assumes "take (length w) (drop i s) = w" and "k < length w"
  shows "i + k < length s \<and> s ! (i + k) = w ! k"
proof -
  have "length (take (length w) (drop i s)) = length w"
    using assms(1) by simp
  then have le: "length w \<le> length s - i" by simp
  with assms(2) have lt: "i + k < length s" by simp
  have "w ! k = take (length w) (drop i s) ! k"
    using assms(1) by simp
  also have "\<dots> = s ! (i + k)"
    using assms(2) lt by simp
  finally show ?thesis using lt by simp
qed

lemma word_literal_chars:
  assumes w: "isWord w" and lit: "take (length w) (drop i s) = w"
    and j: "i \<le> j" "j < i + length w"
  shows "j < length s \<and> isWordChar (s ! j)"
proof -
  from j have k: "j - i < length w" by simp
  from w have "isWordChar (w ! (j - i))"
    using k by (simp add: isWord_def list_all_length)
  with literal_at[OF lit k] j(1) show ?thesis by simp
qed

lemma word_literal_boundaries:
  assumes w: "isWord w" and lit: "take (length w) (drop i s) = w"
  shows "wordAt s i" and "wordBefore s (i + length w)"
    and "\<And>k. i < k \<Longrightarrow> k < i + length w \<Longrightarrow> wordBefore s k \<and> wordAt s k"
proof -
  from w have ne: "0 < length w"
    by (simp add: isWord_def)
  note at = word_literal_chars[OF w lit]
  from at[of i] ne show "wordAt s i"
    by (simp add: wordAt_def)
  have before: "wordBefore s (Suc j)" if "i \<le> j" "j < i + length w" for j
  proof -
    from at[OF that] have "j < length s" "isWordChar (s ! j)" by simp_all
    then show ?thesis by (simp add: wordBefore_def)
  qed
  from ne obtain n where n: "length w = Suc n"
    by (cases "length w") auto
  from before[of "i + n"] n show "wordBefore s (i + length w)"
    by simp
  fix k assume k: "i < k" "k < i + length w"
  then obtain j where j: "k = Suc j" by (cases k) auto
  from at[of k] k have "wordAt s k"
    by (simp add: wordAt_def)
  moreover from before[of j] k j have "wordBefore s k"
    by simp
  ultimately show "wordBefore s k \<and> wordAt s k" by simp
qed

lemma matches_word:
  assumes "isWord w"
  shows "matches (seqs [WordBoundary, Lit w, WordBoundary]) s i e
         = (e = i + length w \<and> wholeWordAt w s i)"
  using word_literal_boundaries(1,2)[OF assms]
  by (auto simp: matches_simps wholeWordAt_def)

lemma wholeWordAt_bound: "isWord w \<Longrightarrow> wholeWordAt w s i \<Longrightarrow> i < length s"
  using word_literal_boundaries(1)[of w i s] by (simp add: wholeWordAt_def wordAt_def)

lemma test_word:
  assumes "isWord w"
  shows "test (seqs [WordBoundary, Lit w, WordBoundary]) s = containsWholeWord w s"
proof -
  have "test (seqs [WordBoundary, Lit w, WordBoundary]) s = (\<exists>i\<le>length s. wholeWordAt w s i)"
    unfolding test_matches matches_word[OF assms] by blast
  also have "\<dots> = (\<exists>i<length s. wholeWordAt w s i)"
    using wholeWordAt_bound[OF assms] by (meson less_imp_le_nat)
  finally show ?thesis
    by (auto simp: containsWholeWord_def list_ex_iff)
qed

lemma isWord_keywords:
  "isWord (js ''if'')" "isWord (js ''for'')" "isWord (js ''while'')" "isWord (js ''switch'')"
  "isWord (js ''case'')" "isWord (js ''catch'')" "isWord (js ''else'')" "isWord (js ''do'')"
  by (simp_all add: isWord_def js_def isWordChar_def)

lemma matchCount_pos_from:
  "(0 < matchCount r s i) = (\<exists>j. i \<le> j \<and> j \<le> length s \<and> ends r s j \<noteq> [])"
proof (induction r s i rule: matchCount.induct)
  case (1 r s i)
  show ?case
  proof (cases "length s < i")
    case True
    then show ?thesis by (simp add: matchCount.simps[of r s i])
  next
    case le: False
    show ?thesis
    proof (cases "ends r s i")
      case Nil
      have "(\<exists>j. i \<le> j \<and> j \<le> length s \<and> ends r s j \<noteq> [])
          = (\<exists>j. i + 1 \<le> j \<and> j \<le> length s \<and> ends r s j \<noteq> [])"
      proof
        assume "\<exists>j. i \<le> j \<and> j \<le> length s \<and> ends r s j \<noteq> []"
        then obtain j where j: "i \<le> j" "j \<le> length s" "ends r s j \<noteq> []" by blast
        with Nil have "j \<noteq> i" by auto
        with j show "\<exists>j. i + 1 \<le> j \<and> j \<le> length s \<and> ends r s j \<noteq> []"
          by (intro exI[of _ j]) simp
      next
        assume "\<exists>j. i + 1 \<le> j \<and> j \<le> length s \<and> ends r s j \<noteq> []"
        then show "\<exists>j. i \<le> j \<and> j \<le> length s \<and> ends r s j \<noteq> []"
          by (meson add_leD1)
      qed
      with "1.IH"(1)[OF le Nil] le Nil show ?thesis
        by (simp add: matchCount.simps[of r s i])
    next
      case (Cons e es)
      with le have "0 < matchCount r s i"
        by (simp add: matchCount.simps[of r s i])
      moreover from le Cons have "\<exists>j. i \<le> j \<and> j \<le> length s \<and> ends r s j \<noteq> []"
        by (intro exI[of _ i]) simp
      ultimately show ?thesis by simp
    qed
  qed
qed

lemma matchCount_pos: "(0 < matchCount r s 0) = test r s"
  unfolding matchCount_pos_from
  by (auto simp: test_def list_ex_iff less_Suc_eq_le simp del: upt_Suc)

section \<open>Loops over a list\<close>

lemma forEach_append:
  "forEach f i (xs @ ys) st = forEach f (i + length xs) ys (forEach f i xs st)"
  by (induction xs arbitrary: i st) simp_all

lemma forEach_snoc: "forEach f i (xs @ [x]) st = f x (i + length xs) (forEach f i xs st)"
  by (simp add: forEach_append)

lemma forEachE_append:
  "forEachE f i (xs @ ys) st =
     (case forEachE f i xs st of
        Inl e \<Rightarrow> Inl e
      | Inr st' \<Rightarrow> forEachE f (i + length xs) ys st')"
  by (induction xs arbitrary: i st) (simp_all split: sum.splits)

section \<open>Counting the matches of an alternation\<close>

lemma matchCount_end: "length s < i \<Longrightarrow> matchCount r s i = 0"
  by (simp add: matchCount.simps[of r s i])

lemma matchCount_nil: "ends r s i = [] \<Longrightarrow> matchCount r s i = matchCount r s (Suc i)"
  by (cases "length s < i") (simp_all add: matchCount.simps[of r s i] matchCount_end)

lemma matchCount_cons:
  "i \<le> length s \<Longrightarrow> ends r s i = e # es \<Longrightarrow> i < e \<Longrightarrow> matchCount r s i = Suc (matchCount r s e)"
  by (simp add: matchCount.simps[of r s i])

lemma matchCount_skip:
  assumes "i \<le> n" and "\<And>k. i \<le> k \<Longrightarrow> k < n \<Longrightarrow> ends r s k = []"
  shows "matchCount r s i = matchCount r s n"
  using assms
proof (induction rule: dec_induct)
  case base
  show ?case by simp
next
  case (step m)
  have "matchCount r s i = matchCount r s m"
    using step.IH step.prems step.hyps by simp
  also have "\<dots> = matchCount r s (Suc m)"
    using step.prems[of m] step.hyps by (simp add: matchCount_nil)
  finally show ?case .
qed

lemma ends_start_bound: "ends r s i = e # es \<Longrightarrow> i \<le> length s \<Longrightarrow> i \<le> e \<and> e \<le> length s"
  using ends_bounds[of e r s i] by simp

lemma matchCount_Alt:
  assumes A: "\<And>j e es. ends a s j = e # es \<Longrightarrow> j < e \<and> (\<forall>k. j \<le> k \<and> k < e \<longrightarrow> ends b s k = [])"
    and B: "\<And>j e es. ends b s j = e # es \<Longrightarrow> j < e \<and> (\<forall>k. j < k \<and> k < e \<longrightarrow> ends a s k = [])"
  shows "matchCount (Alt a b) s i = matchCount a s i + matchCount b s i"
proof (induction "Suc (length s) - i" arbitrary: i rule: less_induct)
  case less
  show ?case
  proof (cases "length s < i")
    case True
    then show ?thesis by (simp add: matchCount_end)
  next
    case False
    then have le: "i \<le> length s" by simp
    show ?thesis
    proof (cases "ends a s i")
      case (Cons e es)
      from A[OF Cons] have lt: "i < e" and none: "\<And>k. i \<le> k \<Longrightarrow> k < e \<Longrightarrow> ends b s k = []"
        by blast+
      have alt: "ends (Alt a b) s i = e # (es @ ends b s i)"
        using Cons by simp
      have 1: "matchCount (Alt a b) s i = Suc (matchCount (Alt a b) s e)"
        by (rule matchCount_cons[OF le alt lt])
      have 2: "matchCount (Alt a b) s e = matchCount a s e + matchCount b s e"
        using le lt by (intro less) simp
      have 3: "matchCount b s i = matchCount b s e"
        using lt none by (intro matchCount_skip) simp_all
      have 4: "matchCount a s i = Suc (matchCount a s e)"
        by (rule matchCount_cons[OF le Cons lt])
      show ?thesis by (simp add: 1 2 3 4)
    next
      case Nil
      show ?thesis
      proof (cases "ends b s i")
        case b: (Cons e es)
        from B[OF b] have lt: "i < e" and none: "\<And>k. i < k \<Longrightarrow> k < e \<Longrightarrow> ends a s k = []"
          by blast+
        have alt: "ends (Alt a b) s i = e # es"
          using Nil b by simp
        have 1: "matchCount (Alt a b) s i = Suc (matchCount (Alt a b) s e)"
          by (rule matchCount_cons[OF le alt lt])
        have 2: "matchCount (Alt a b) s e = matchCount a s e + matchCount b s e"
          using le lt by (intro less) simp
        have 3: "matchCount a s (Suc i) = matchCount a s e"
          using lt none by (intro matchCount_skip) simp_all
        have 4: "matchCount a s i = matchCount a s (Suc i)"
          using Nil by (rule matchCount_nil)
        have 5: "matchCount b s i = Suc (matchCount b s e)"
          by (rule matchCount_cons[OF le b lt])
        show ?thesis by (simp add: 1 2 3 4 5)
      next
        case b: Nil
        have "ends (Alt a b) s i = []"
          using Nil b by simp
        then have 1: "matchCount (Alt a b) s i = matchCount (Alt a b) s (Suc i)"
          by (rule matchCount_nil)
        have 2: "matchCount (Alt a b) s (Suc i) = matchCount a s (Suc i) + matchCount b s (Suc i)"
          using le by (intro less) simp
        show ?thesis
          by (simp add: 1 2 matchCount_nil[OF Nil] matchCount_nil[OF b])
      qed
    qed
  qed
qed

lemma matchCount_Alt_disjoint:
  assumes "covers a s Ca" and "startsIn b s Cb" and "Ca \<inter> Cb = {}"
    and "covers b s Cb'" and "startsIn a s Ca'" and "Cb' \<inter> Ca' = {}"
  shows "matchCount (Alt a b) s i = matchCount a s i + matchCount b s i"
proof (rule matchCount_Alt)
  fix j e es assume e: "ends a s j = e # es"
  with assms(1) have lt: "j < e" and c: "\<And>k. j \<le> k \<Longrightarrow> k < e \<Longrightarrow> k < length s \<and> s ! k \<in> Ca"
    unfolding covers_def by blast+
  have "ends b s k = []" if "j \<le> k" "k < e" for k
  proof (rule ccontr)
    assume "ends b s k \<noteq> []"
    with assms(2) have "s ! k \<in> Cb" unfolding startsIn_def by blast
    with c[OF that] assms(3) show False by blast
  qed
  with lt show "j < e \<and> (\<forall>k. j \<le> k \<and> k < e \<longrightarrow> ends b s k = [])" by blast
next
  fix j e es assume e: "ends b s j = e # es"
  with assms(4) have lt: "j < e" and c: "\<And>k. j \<le> k \<Longrightarrow> k < e \<Longrightarrow> k < length s \<and> s ! k \<in> Cb'"
    unfolding covers_def by blast+
  have "ends a s k = []" if "j < k" "k < e" for k
  proof (rule ccontr)
    assume "ends a s k \<noteq> []"
    with assms(5) have "s ! k \<in> Ca'" unfolding startsIn_def by blast
    moreover from that have "j \<le> k" by simp
    ultimately show False using c[OF _ that(2)] assms(6) by blast
  qed
  with lt show "j < e \<and> (\<forall>k. j < k \<and> k < e \<longrightarrow> ends a s k = [])" by blast
qed

lemma startsIn_Alt: "startsIn a s Ca \<Longrightarrow> startsIn b s Cb \<Longrightarrow> startsIn (Alt a b) s (Ca \<union> Cb)"
  unfolding startsIn_def by auto

lemma covers_Alt: "covers a s Ca \<Longrightarrow> covers b s Cb \<Longrightarrow> covers (Alt a b) s (Ca \<union> Cb)"
  unfolding covers_def
proof (intro allI impI)
  fix j e es
  assume a: "\<forall>j e es. ends a s j = e # es \<longrightarrow> j < e \<and> (\<forall>k. j \<le> k \<and> k < e \<longrightarrow> k < length s \<and> s ! k \<in> Ca)"
    and b: "\<forall>j e es. ends b s j = e # es \<longrightarrow> j < e \<and> (\<forall>k. j \<le> k \<and> k < e \<longrightarrow> k < length s \<and> s ! k \<in> Cb)"
    and e: "ends (Alt a b) s j = e # es"
  show "j < e \<and> (\<forall>k. j \<le> k \<and> k < e \<longrightarrow> k < length s \<and> s ! k \<in> Ca \<union> Cb)"
  proof (cases "ends a s j")
    case Nil
    with e have "ends b s j = e # es" by simp
    with b show ?thesis by blast
  next
    case (Cons e' es')
    with e have "e' = e" by simp
    with Cons a show ?thesis by blast
  qed
qed

lemma startsIn_Lit: "w \<noteq> [] \<Longrightarrow> startsIn (Lit w) s {hd w}"
  unfolding startsIn_def
proof (intro allI impI)
  fix k assume w: "w \<noteq> []" and "ends (Lit w) s k \<noteq> []"
  then have lit: "take (length w) (drop k s) = w"
    by (simp split: if_splits)
  from w have "0 < length w" by simp
  from literal_at[OF lit this] w show "k < length s \<and> s ! k \<in> {hd w}"
    by (simp add: hd_conv_nth)
qed

lemma covers_Lit: "w \<noteq> [] \<Longrightarrow> covers (Lit w) s (set w)"
  unfolding covers_def
proof (intro allI impI)
  fix j e es assume w: "w \<noteq> []" and "ends (Lit w) s j = e # es"
  then have lit: "take (length w) (drop j s) = w" and e: "e = j + length w"
    by (simp_all split: if_splits)
  have "k < length s \<and> s ! k \<in> set w" if "j \<le> k" "k < e" for k
  proof -
    from that e have "k - j < length w" by simp
    from literal_at[OF lit this] this that(1) show ?thesis by simp
  qed
  with e w show "j < e \<and> (\<forall>k. j \<le> k \<and> k < e \<longrightarrow> k < length s \<and> s ! k \<in> set w)" by simp
qed

lemma matches_alts:
  "ws \<noteq> [] \<Longrightarrow> matches (alts ws) s i e = (\<exists>w\<in>set ws. matches (Lit w) s i e)"
  by (induction ws rule: alts.induct) (simp_all add: matches_Alt)

lemma matches_wordRegex:
  assumes "ws \<noteq> []" and "\<forall>w\<in>set ws. isWord w"
  shows "matches (wordRegex ws) s i e = (\<exists>w\<in>set ws. e = i + length w \<and> wholeWordAt w s i)"
proof -
  have "matches (wordRegex ws) s i e
      = (\<exists>w\<in>set ws. matches (seqs [WordBoundary, Lit w, WordBoundary]) s i e)"
    by (auto simp: wordRegex_def matches_Seq matches_alts[OF assms(1)])
  also have "\<dots> = (\<exists>w\<in>set ws. e = i + length w \<and> wholeWordAt w s i)"
    using assms(2) matches_word[of _ s i e] by blast
  finally show ?thesis .
qed

lemma ends_nonempty: "(ends r s i \<noteq> []) = (\<exists>e. matches r s i e)"
  by (cases "ends r s i") (auto simp: matches_def)

lemma ends_wordRegex:
  assumes "ws \<noteq> []" and "\<forall>w\<in>set ws. isWord w"
  shows "(ends (wordRegex ws) s i \<noteq> []) = (\<exists>w\<in>set ws. wholeWordAt w s i)"
  unfolding ends_nonempty matches_wordRegex[OF assms] by blast

lemma ends_wordRegex_hd:
  assumes "ws \<noteq> []" and "\<forall>w\<in>set ws. isWord w" and "ends (wordRegex ws) s i = e # es"
  shows "\<exists>w\<in>set ws. e = i + length w \<and> wholeWordAt w s i"
proof -
  from assms(3) have "matches (wordRegex ws) s i e"
    by (simp add: matches_def)
  then show ?thesis
    by (simp only: matches_wordRegex[OF assms(1,2)])
qed

lemma wholeWordAt_unique:
  assumes w: "isWord w" and w': "isWord w'"
    and a: "wholeWordAt w s i" and a': "wholeWordAt w' s i"
  shows "w = w'"
proof -
  from a a' have lit: "take (length w) (drop i s) = w" and lit': "take (length w') (drop i s) = w'"
    and after: "\<not> wordAt s (i + length w)" and after': "\<not> wordAt s (i + length w')"
    by (simp_all add: wholeWordAt_def)
  have "\<not> length w < length w'"
  proof
    assume "length w < length w'"
    then have "i + length w < i + length w'" by simp
    from word_literal_chars[OF w' lit' _ this] after show False
      by (simp add: wordAt_def)
  qed
  moreover have "\<not> length w' < length w"
  proof
    assume "length w' < length w"
    then have "i + length w' < i + length w" by simp
    from word_literal_chars[OF w lit _ this] after' show False
      by (simp add: wordAt_def)
  qed
  ultimately have "length w = length w'" by simp
  with lit lit' show ?thesis by metis
qed

lemma startsIn_wordRegex:
  assumes "ws \<noteq> []" and "\<forall>w\<in>set ws. isWord w"
  shows "startsIn (wordRegex ws) s (Collect isWordChar)"
  unfolding startsIn_def
proof (intro allI impI)
  fix k assume "ends (wordRegex ws) s k \<noteq> []"
  then obtain w where w: "w \<in> set ws" "wholeWordAt w s k"
    unfolding ends_wordRegex[OF assms] by blast
  with assms(2) have iw: "isWord w" by blast
  from w(2) have lit: "take (length w) (drop k s) = w"
    by (simp add: wholeWordAt_def)
  from iw have "k < k + length w" by (simp add: isWord_def)
  from word_literal_chars[OF iw lit _ this] show "k < length s \<and> s ! k \<in> Collect isWordChar"
    by simp
qed

lemma covers_wordRegex:
  assumes "ws \<noteq> []" and "\<forall>w\<in>set ws. isWord w"
  shows "covers (wordRegex ws) s (Collect isWordChar)"
  unfolding covers_def
proof (intro allI impI)
  fix j e es assume "ends (wordRegex ws) s j = e # es"
  from ends_wordRegex_hd[OF assms this] obtain w where
    w: "w \<in> set ws" "e = j + length w" "wholeWordAt w s j" by blast
  with assms(2) have iw: "isWord w" by blast
  from w(3) have lit: "take (length w) (drop j s) = w"
    by (simp add: wholeWordAt_def)
  from iw w(2) have "j < e" by (simp add: isWord_def)
  moreover have "k < length s \<and> s ! k \<in> Collect isWordChar" if "j \<le> k" "k < e" for k
    using word_literal_chars[OF iw lit that(1)] that(2) w(2) by simp
  ultimately show "j < e \<and> (\<forall>k. j \<le> k \<and> k < e \<longrightarrow> k < length s \<and> s ! k \<in> Collect isWordChar)"
    by blast
qed

lemma matchCount_positions:
  assumes inner: "\<And>j e es. ends r s j = e # es \<Longrightarrow> j < e \<and> (\<forall>k. j < k \<and> k < e \<longrightarrow> ends r s k = [])"
    and last: "ends r s (length s) = []"
  shows "matchCount r s i = length (filter (\<lambda>j. ends r s j \<noteq> []) [i..<length s])"
proof (induction "Suc (length s) - i" arbitrary: i rule: less_induct)
  case less
  consider "length s < i" | "i = length s" | "i < length s" by linarith
  then show ?case
  proof cases
    case 1
    then show ?thesis by (simp add: matchCount_end)
  next
    case 2
    with last have "matchCount r s i = matchCount r s (Suc i)"
      by (simp add: matchCount_nil)
    with 2 show ?thesis by (simp add: matchCount_end)
  next
    case 3
    then have upt: "[i..<length s] = i # [Suc i..<length s]"
      by (simp add: upt_conv_Cons)
    show ?thesis
    proof (cases "ends r s i")
      case Nil
      have "matchCount r s (Suc i) = length (filter (\<lambda>j. ends r s j \<noteq> []) [Suc i..<length s])"
        using 3 by (intro less) simp
      with Nil show ?thesis
        by (simp add: matchCount_nil upt)
    next
      case (Cons e es)
      from inner[OF Cons] have lt: "i < e" and none: "\<And>k. i < k \<Longrightarrow> k < e \<Longrightarrow> ends r s k = []"
        by blast+
      from 3 have le: "i \<le> length s" by simp
      from ends_start_bound[OF Cons le] have e: "e \<le> length s" by simp
      have 1: "matchCount r s i = Suc (matchCount r s e)"
        by (rule matchCount_cons[OF le Cons lt])
      have 2: "matchCount r s e = length (filter (\<lambda>j. ends r s j \<noteq> []) [e..<length s])"
        using 3 lt by (intro less) simp
      have "[Suc i..<length s] = [Suc i..<e] @ [e..<length s]"
        using lt e by (metis Suc_leI upt_add_eq_append le_Suc_ex)
      moreover have "filter (\<lambda>j. ends r s j \<noteq> []) [Suc i..<e] = []"
        using none by (auto simp: filter_empty_conv)
      ultimately have 3: "filter (\<lambda>j. ends r s j \<noteq> []) [Suc i..<length s]
          = filter (\<lambda>j. ends r s j \<noteq> []) [e..<length s]"
        by simp
      show ?thesis
        using Cons by (simp add: 1 2 3 upt)
    qed
  qed
qed

lemma matchCount_wordRegex:
  assumes "ws \<noteq> []" and "\<forall>w\<in>set ws. isWord w"
  shows "matchCount (wordRegex ws) s 0
         = length (filter (\<lambda>j. \<exists>w\<in>set ws. wholeWordAt w s j) [0..<length s])"
proof -
  have inner: "j < e \<and> (\<forall>k. j < k \<and> k < e \<longrightarrow> ends (wordRegex ws) s k = [])"
    if "ends (wordRegex ws) s j = e # es" for j e es
  proof -
    from ends_wordRegex_hd[OF assms that] obtain w where
      w: "w \<in> set ws" "e = j + length w" "wholeWordAt w s j" by blast
    with assms(2) have iw: "isWord w" by blast
    from w(3) have lit: "take (length w) (drop j s) = w"
      by (simp add: wholeWordAt_def)
    from iw w(2) have "j < e" by (simp add: isWord_def)
    moreover have "ends (wordRegex ws) s k = []" if k: "j < k" "k < e" for k
    proof (rule ccontr)
      assume "ends (wordRegex ws) s k \<noteq> []"
      then obtain w' where "wholeWordAt w' s k"
        unfolding ends_wordRegex[OF assms] by blast
      then have "\<not> wordBefore s k" by (simp add: wholeWordAt_def)
      with word_literal_boundaries(3)[OF iw lit k(1)] k(2) w(2) show False by simp
    qed
    ultimately show ?thesis by blast
  qed
  have last: "ends (wordRegex ws) s (length s) = []"
  proof (rule ccontr)
    assume "ends (wordRegex ws) s (length s) \<noteq> []"
    with startsIn_wordRegex[OF assms, of s] show False
      unfolding startsIn_def by blast
  qed
  have "matchCount (wordRegex ws) s 0
      = length (filter (\<lambda>j. ends (wordRegex ws) s j \<noteq> []) [0..<length s])"
    using inner last by (rule matchCount_positions)
  then show ?thesis
    by (simp only: ends_wordRegex[OF assms])
qed

lemma length_filter_disj:
  "(\<And>x. x \<in> set xs \<Longrightarrow> \<not> (P x \<and> Q x)) \<Longrightarrow>
   length (filter (\<lambda>x. P x \<or> Q x) xs) = length (filter P xs) + length (filter Q xs)"
  by (induction xs) auto

lemma matchCount_Lit_from:
  assumes w: "w \<noteq> []"
  shows "i \<le> length s \<Longrightarrow> matchCount (Lit w) s i = occurrencesOf w (drop i s)"
proof (induction "length s - i" arbitrary: i rule: less_induct)
  case less
  show ?case
  proof (cases "i = length s")
    case True
    have "ends (Lit w) s i = []"
      using w True by simp
    then have "matchCount (Lit w) s i = matchCount (Lit w) s (Suc i)"
      by (rule matchCount_nil)
    with True show ?thesis
      by (simp add: matchCount_end occurrencesOf.simps[of w "[]"])
  next
    case False
    with less.prems have lt: "i < length s" by simp
    then have ne: "drop i s \<noteq> []" by simp
    show ?thesis
    proof (cases "take (length w) (drop i s) = w")
      case True
      then have e: "ends (Lit w) s i = [i + length w]" by simp
      from ends_start_bound[OF e less.prems] have le: "i + length w \<le> length s" by simp
      from w have pos: "i < i + length w" by simp
      have "matchCount (Lit w) s i = Suc (matchCount (Lit w) s (i + length w))"
        by (rule matchCount_cons[OF less.prems e pos])
      also have "matchCount (Lit w) s (i + length w) = occurrencesOf w (drop (i + length w) s)"
      proof (rule less)
        from w have "0 < length w" by simp
        with lt show "length s - (i + length w) < length s - i" by linarith
        show "i + length w \<le> length s" by (rule le)
      qed
      also have "drop (i + length w) s = drop (length w) (drop i s)"
        by (simp add: add.commute)
      finally show ?thesis
        using True w ne by (simp add: occurrencesOf.simps[of w "drop i s"])
    next
      case False
      then have "ends (Lit w) s i = []" by simp
      then have "matchCount (Lit w) s i = matchCount (Lit w) s (Suc i)"
        by (rule matchCount_nil)
      also have "\<dots> = occurrencesOf w (drop (Suc i) s)"
        using lt by (intro less) simp_all
      also have "drop (Suc i) s = tl (drop i s)"
        by (simp add: drop_Suc drop_tl)
      finally show ?thesis
        using False w ne by (simp add: occurrencesOf.simps[of w "drop i s"])
    qed
  qed
qed

lemma matchCount_Lit: "w \<noteq> [] \<Longrightarrow> matchCount (Lit w) s 0 = occurrencesOf w s"
  using matchCount_Lit_from[of w 0 s] by simp

section \<open>Properties of the nesting scan\<close>

lemma length_snapshot: "length (snapshot stk) = length stk"
  by (simp add: snapshot_def)

lemma map_snd_zip_fun: "length xs = length ys \<Longrightarrow> map (\<lambda>p. f (snd p)) (zip xs ys) = map f ys"
  by (induction xs ys rule: list_induct2) simp_all

lemma depth_snapshot: "map depth (snapshot stk) = map Some [1..<Suc (length stk)]"
proof -
  have "map depth (snapshot stk) = map (\<lambda>p. Some (Suc (snd p))) (zip stk [0..<length stk])"
    by (simp add: snapshot_def case_prod_unfold comp_def)
  also have "\<dots> = map (\<lambda>d. Some (Suc d)) [0..<length stk]"
    by (rule map_snd_zip_fun) simp
  also have "\<dots> = map Some (map Suc [0..<length stk])"
    by (simp add: comp_def)
  also have "map Suc [0..<length stk] = [1..<Suc (length stk)]"
    by (simp add: map_Suc_upt)
  finally show ?thesis .
qed

lemma nestingInv_init: "nestingInv nestingInit"
  by (simp add: nestingInv_def nestingInit_def)

lemma nestingInv_openRule: "nestingInv st \<Longrightarrow> nestingInv (openRule t i st)"
  by (auto simp: nestingInv_def openRule_def Let_def length_snapshot depth_snapshot)

lemma closeBrace_eq:
  "currentDepth st = int (length (stack st)) \<Longrightarrow>
   closeBrace st = (if 0 < currentDepth st
                    then st\<lparr>currentDepth := currentDepth st - 1, stack := butlast (stack st)\<rparr>
                    else st)"
  by (auto simp: closeBrace_def Let_def)

lemma nestingInv_closeBrace: "nestingInv st \<Longrightarrow> nestingInv (closeBrace st)"
  by (cases "stack st" rule: rev_cases) (auto simp: nestingInv_def closeBrace_def Let_def)

lemma nestingInv_closeLoop: "nestingInv st \<Longrightarrow> nestingInv (closeLoop n st)"
  by (induction n arbitrary: st) (simp_all add: nestingInv_closeBrace)

lemma nestingInv_nestingLine: "nestingInv st \<Longrightarrow> nestingInv (nestingLine l i st)"
  by (simp add: nestingLine_def Let_def nestingInv_closeLoop nestingInv_openRule)

lemma nestingInv_forEach: "nestingInv st \<Longrightarrow> nestingInv (forEach nestingLine i ls st)"
  by (induction ls arbitrary: i st) (simp_all add: nestingInv_nestingLine)

lemma nestingInv_scanState: "nestingInv (scanState ls)"
  by (simp add: scanState_def nestingInv_forEach nestingInv_init)

lemma closeLoop_keeps: "maxDepth (closeLoop n st) = maxDepth st \<and> locationsS (closeLoop n st) = locationsS st"
proof (induction n arbitrary: st)
  case 0 show ?case by simp
next
  case (Suc n)
  have "maxDepth (closeBrace st) = maxDepth st" "locationsS (closeBrace st) = locationsS st"
    by (auto simp: closeBrace_def Let_def)
  with Suc[of "closeBrace st"] show ?case by simp
qed

lemma scanState_snoc:
  "scanState (xs @ [x]) = closeLoop (matchCount closeRegex (trim x) 0) (afterOpen (xs @ [x]) (length xs))"
  by (simp add: scanState_def afterOpen_def forEach_snoc nestingLine_def Let_def)

lemma afterOpen_snoc: "j < length xs \<Longrightarrow> afterOpen (xs @ [x]) j = afterOpen xs j"
  by (simp add: afterOpen_def nth_append)

lemma afterOpen_cases:
  assumes "nestingInv st" and ao: "ao = openRule t i st"
  shows "(maxDepth ao = maxDepth st \<and> locationsS ao = locationsS st \<and> currentDepth ao \<le> maxDepth st)
       \<or> (maxDepth st < currentDepth ao \<and> maxDepth ao = currentDepth ao \<and> locationsS ao = snapshot (stack ao))"
  using assms by (auto simp: nestingInv_def openRule_def Let_def)

lemma firstMax_all: "firstMax ls"
proof (induction ls rule: rev_induct)
  case Nil
  show ?case by (simp add: firstMax_def scanState_def nestingInit_def)
next
  case (snoc x xs)
  let ?st = "scanState xs"
  let ?ao = "afterOpen (xs @ [x]) (length xs)"
  let ?st' = "scanState (xs @ [x])"
  have ao: "?ao = openRule (trim x) (length xs) ?st"
    by (simp add: afterOpen_def)
  have keep: "maxDepth ?st' = maxDepth ?ao" "locationsS ?st' = locationsS ?ao"
    by (simp_all add: scanState_snoc closeLoop_keeps)
  have le: "\<forall>j<length xs. currentDepth (afterOpen xs j) \<le> maxDepth ?st"
    using snoc by (simp add: firstMax_def Let_def)
  have ex: "0 < maxDepth ?st \<Longrightarrow> \<exists>k<length xs. currentDepth (afterOpen xs k) = maxDepth ?st
        \<and> locationsS ?st = snapshot (stack (afterOpen xs k))
        \<and> (\<forall>j<k. currentDepth (afterOpen xs j) < maxDepth ?st)"
    using snoc by (simp add: firstMax_def Let_def)
  have nonneg: "0 \<le> maxDepth ?st"
    using nestingInv_scanState[of xs] by (simp add: nestingInv_def)
  from afterOpen_cases[OF nestingInv_scanState ao]
  show ?case
  proof
    assume same: "maxDepth ?ao = maxDepth ?st \<and> locationsS ?ao = locationsS ?st \<and> currentDepth ?ao \<le> maxDepth ?st"
    have 1: "\<forall>j<length (xs @ [x]). currentDepth (afterOpen (xs @ [x]) j) \<le> maxDepth ?st'"
    proof (intro allI impI)
      fix j assume "j < length (xs @ [x])"
      then consider "j < length xs" | "j = length xs" by fastforce
      then show "currentDepth (afterOpen (xs @ [x]) j) \<le> maxDepth ?st'"
        using le same keep by cases (simp_all add: afterOpen_snoc)
    qed
    have 2: "\<exists>k<length (xs @ [x]). currentDepth (afterOpen (xs @ [x]) k) = maxDepth ?st'
        \<and> locationsS ?st' = snapshot (stack (afterOpen (xs @ [x]) k))
        \<and> (\<forall>j<k. currentDepth (afterOpen (xs @ [x]) j) < maxDepth ?st')" if "0 < maxDepth ?st'"
    proof -
      from that same keep have "0 < maxDepth ?st" by simp
      from ex[OF this] obtain k where k: "k < length xs" "currentDepth (afterOpen xs k) = maxDepth ?st"
        "locationsS ?st = snapshot (stack (afterOpen xs k))"
        "\<forall>j<k. currentDepth (afterOpen xs j) < maxDepth ?st" by blast
      have "\<forall>j<k. currentDepth (afterOpen (xs @ [x]) j) < maxDepth ?st'"
        using k(1,4) same keep by (simp add: afterOpen_snoc)
      with k same keep show ?thesis
        by (intro exI[of _ k]) (simp add: afterOpen_snoc)
    qed
    from 1 2 show ?thesis by (simp add: firstMax_def Let_def)
  next
    assume new: "maxDepth ?st < currentDepth ?ao \<and> maxDepth ?ao = currentDepth ?ao \<and> locationsS ?ao = snapshot (stack ?ao)"
    have 1: "\<forall>j<length (xs @ [x]). currentDepth (afterOpen (xs @ [x]) j) \<le> maxDepth ?st'"
    proof (intro allI impI)
      fix j assume "j < length (xs @ [x])"
      then consider "j < length xs" | "j = length xs" by fastforce
      then show "currentDepth (afterOpen (xs @ [x]) j) \<le> maxDepth ?st'"
      proof cases
        case 1
        with le have "currentDepth (afterOpen xs j) \<le> maxDepth ?st" by simp
        with new keep 1 show ?thesis by (simp add: afterOpen_snoc)
      next
        case 2
        with new keep show ?thesis by simp
      qed
    qed
    have "\<forall>j<length xs. currentDepth (afterOpen (xs @ [x]) j) < maxDepth ?st'"
    proof (intro allI impI)
      fix j assume j: "j < length xs"
      with le have "currentDepth (afterOpen xs j) \<le> maxDepth ?st" by simp
      with new keep j show "currentDepth (afterOpen (xs @ [x]) j) < maxDepth ?st'"
        by (simp add: afterOpen_snoc)
    qed
    with new keep have 2: "\<exists>k<length (xs @ [x]). currentDepth (afterOpen (xs @ [x]) k) = maxDepth ?st'
        \<and> locationsS ?st' = snapshot (stack (afterOpen (xs @ [x]) k))
        \<and> (\<forall>j<k. currentDepth (afterOpen (xs @ [x]) j) < maxDepth ?st')"
      by (intro exI[of _ "length xs"]) simp
    from 1 2 show ?thesis by (simp add: firstMax_def Let_def)
  qed
qed

lemma closeTrace_last: "last (st # closeTrace n st) = closeLoop n st"
  by (induction n arbitrary: st) simp_all

lemma lineTrace_last: "last (lineTrace l i st) = nestingLine l i st"
  using closeTrace_last by (simp add: lineTrace_def nestingLine_def Let_def del: last.simps)

lemma scanTrace_last: "last (st # scanTrace i ls st) = forEach nestingLine i ls st"
proof (induction ls arbitrary: i st)
  case Nil
  show ?case by simp
next
  case (Cons l ls)
  have ne: "lineTrace l i st \<noteq> []"
    by (simp add: lineTrace_def Let_def)
  have "last (st # scanTrace i (l # ls) st)
      = last (lineTrace l i st @ scanTrace (i + 1) ls (nestingLine l i st))"
    using ne by simp
  also have "\<dots> = last (last (lineTrace l i st) # scanTrace (i + 1) ls (nestingLine l i st))"
    using ne by (cases "scanTrace (i + 1) ls (nestingLine l i st) = []") simp_all
  also have "\<dots> = forEach nestingLine (i + 1) ls (nestingLine l i st)"
    using Cons.IH[of "nestingLine l i st" "i + 1"] by (simp only: lineTrace_last)
  finally show ?case by simp
qed

lemma nestingInv_closeTrace: "nestingInv st \<Longrightarrow> s \<in> set (closeTrace n st) \<Longrightarrow> nestingInv s"
proof (induction n arbitrary: st)
  case 0
  then show ?case by simp
next
  case (Suc n)
  have c: "nestingInv (closeBrace st)"
    by (rule nestingInv_closeBrace[OF Suc.prems(1)])
  from Suc.prems(2) have "s = closeBrace st \<or> s \<in> set (closeTrace n (closeBrace st))"
    by simp
  with c Suc.IH[OF c] show ?case by blast
qed

lemma nestingInv_lineTrace: "nestingInv st \<Longrightarrow> s \<in> set (lineTrace l i st) \<Longrightarrow> nestingInv s"
proof -
  assume inv: "nestingInv st" and s: "s \<in> set (lineTrace l i st)"
  let ?st1 = "openRule (trim l) i st"
  have o: "nestingInv ?st1"
    by (rule nestingInv_openRule[OF inv])
  from s have "s = ?st1 \<or> s \<in> set (closeTrace (matchCount closeRegex (trim l) 0) ?st1)"
    by (simp add: lineTrace_def Let_def)
  with o nestingInv_closeTrace[OF o] show ?thesis by blast
qed

lemma nestingInv_scanTrace: "nestingInv st \<Longrightarrow> s \<in> set (scanTrace i ls st) \<Longrightarrow> nestingInv s"
proof (induction ls arbitrary: i st)
  case Nil
  then show ?case by simp
next
  case (Cons l ls)
  from Cons.prems(2) consider "s \<in> set (lineTrace l i st)"
    | "s \<in> set (scanTrace (i + 1) ls (nestingLine l i st))" by auto
  then show ?case
  proof cases
    case 1
    with Cons.prems(1) show ?thesis by (rule nestingInv_lineTrace)
  next
    case 2
    with Cons.IH[OF nestingInv_nestingLine[OF Cons.prems(1)]] show ?thesis by simp
  qed
qed

lemma push_then_pop:
  "stack (openRule (trim (js ''if (x) { }'')) 0 nestingInit) = [\<lparr>lineF = 1, codeF = js ''if (x) { }''\<rparr>]
   \<and> stack (nestingLine (js ''if (x) { }'') 0 nestingInit) = []
   \<and> maxDepth (nestingLine (js ''if (x) { }'') 0 nestingInit) = 1
   \<and> currentDepth (nestingLine (js ''if (x) { }'') 0 nestingInit) = 0"
  by code_simp

text \<open>
  C6: on every line the opening rule comes before the closing braces, so a line can push
  a frame and pop it again; at every point of the scan the depth is not negative, and a
  closing brace lowers the depth by one and pops one frame when the depth is positive
  and changes nothing when it is zero.
\<close>

theorem nesting_open_before_close:
  "nestingLine srcLine index st0 =
     closeLoop (matchCount closeRegex (trim srcLine) 0) (openRule (trim srcLine) index st0)
   \<and> last (nestingInit # scanTrace 0 lines nestingInit) = forEach nestingLine 0 lines nestingInit
   \<and> (\<forall>st \<in> set (nestingInit # scanTrace 0 lines nestingInit).
        0 \<le> currentDepth st
        \<and> closeBrace st =
            (if 0 < currentDepth st
             then st\<lparr>currentDepth := currentDepth st - 1, stack := butlast (stack st)\<rparr>
             else st))
   \<and> stack (openRule (trim (js ''if (x) { }'')) 0 nestingInit) = [\<lparr>lineF = 1, codeF = js ''if (x) { }''\<rparr>]
   \<and> stack (nestingLine (js ''if (x) { }'') 0 nestingInit) = []"
proof -
  have 1: "nestingLine srcLine index st0 =
     closeLoop (matchCount closeRegex (trim srcLine) 0) (openRule (trim srcLine) index st0)"
    by (simp add: nestingLine_def Let_def)
  have 2: "last (nestingInit # scanTrace 0 lines nestingInit) = forEach nestingLine 0 lines nestingInit"
    by (rule scanTrace_last)
  have 3: "0 \<le> currentDepth st \<and> closeBrace st =
            (if 0 < currentDepth st
             then st\<lparr>currentDepth := currentDepth st - 1, stack := butlast (stack st)\<rparr>
             else st)" if "st \<in> set (nestingInit # scanTrace 0 lines nestingInit)" for st
  proof -
    from that have inv: "nestingInv st"
      using nestingInv_init nestingInv_scanTrace[OF nestingInv_init] by auto
    then have d: "currentDepth st = int (length (stack st))"
      by (simp add: nestingInv_def)
    then have "0 \<le> currentDepth st" by simp
    with closeBrace_eq[OF d] show ?thesis by simp
  qed
  from 1 2 3 push_then_pop show ?thesis by blast
qed

theorem nesting_open_before_close_witness:
  "list_all (\<lambda>st. 0 \<le> currentDepth st)
     (nestingInit # scanTrace 0 [js ''if (x) {'', js ''}'', js ''}''] nestingInit)
   \<and> map currentDepth (nestingInit # scanTrace 0 [js ''if (x) {'', js ''}'', js ''}''] nestingInit)
       = [0, 1, 1, 0, 0, 0]"
proof -
  have "map currentDepth (nestingInit # scanTrace 0 [js ''if (x) {'', js ''}'', js ''}''] nestingInit)
       = [0, 1, 1, 0, 0, 0]"
    by code_simp
  with nesting_open_before_close[of _ _ _ "[js ''if (x) {'', js ''}'', js ''}'']"]
  show ?thesis by (simp add: list_all_iff)
qed

text \<open>
  C9: after each line of the scan the stack has as many frames as \<open>currentDepth\<close> says
  (and the recorded locations as many entries as \<open>maxDepth\<close>); so a snapshot taken when a
  line reaches a new maximum has the length of that maximum.
\<close>

theorem nesting_stack_length_is_depth:
  "int (length (stack (scanState (take k lines)))) = currentDepth (scanState (take k lines))
   \<and> int (length (locationsS (scanState (take k lines)))) = maxDepth (scanState (take k lines))
   \<and> forEach nestingLine 0 lines nestingInit
       = forEach nestingLine (min k (length lines)) (drop k lines) (scanState (take k lines))
   \<and> (maxDepth (scanState (take k lines)) < currentDepth (afterOpen lines k) \<longrightarrow>
        locationsS (afterOpen lines k) = snapshot (stack (afterOpen lines k))
        \<and> int (length (locationsS (afterOpen lines k))) = maxDepth (afterOpen lines k)
        \<and> maxDepth (afterOpen lines k) = currentDepth (afterOpen lines k))"
proof -
  have inv: "nestingInv (scanState (take k lines))"
    by (rule nestingInv_scanState)
  have "forEach nestingLine 0 (take k lines @ drop k lines) nestingInit
       = forEach nestingLine (min k (length lines)) (drop k lines) (scanState (take k lines))"
    unfolding forEach_append by (simp add: scanState_def min.commute)
  then have split: "forEach nestingLine 0 lines nestingInit
       = forEach nestingLine (min k (length lines)) (drop k lines) (scanState (take k lines))"
    by simp
  have ao: "afterOpen lines k = openRule (trim (lines ! k)) k (scanState (take k lines))"
    by (simp add: afterOpen_def)
  have inv': "nestingInv (afterOpen lines k)"
    unfolding ao by (rule nestingInv_openRule[OF inv])
  from afterOpen_cases[OF inv ao] inv inv' split show ?thesis
    by (auto simp: nestingInv_def)
qed

theorem nesting_stack_length_is_depth_witness:
  "maxDepth (scanState (take 1 [js ''if (a) {'', js ''  for (b) {'', js ''}}'']))
     < currentDepth (afterOpen [js ''if (a) {'', js ''  for (b) {'', js ''}}''] 1)
   \<and> int (length (locationsS (afterOpen [js ''if (a) {'', js ''  for (b) {'', js ''}}''] 1))) = 2"
proof -
  have m: "maxDepth (scanState (take 1 [js ''if (a) {'', js ''  for (b) {'', js ''}}''])) = 1"
    by code_simp
  have c: "currentDepth (afterOpen [js ''if (a) {'', js ''  for (b) {'', js ''}}''] 1) = 2"
    by code_simp
  have lt: "maxDepth (scanState (take 1 [js ''if (a) {'', js ''  for (b) {'', js ''}}'']))
     < currentDepth (afterOpen [js ''if (a) {'', js ''  for (b) {'', js ''}}''] 1)"
    unfolding m c by simp
  from nesting_stack_length_is_depth[of 1 "[js ''if (a) {'', js ''  for (b) {'', js ''}}'']"] lt
  have "int (length (locationsS (afterOpen [js ''if (a) {'', js ''  for (b) {'', js ''}}''] 1)))
      = currentDepth (afterOpen [js ''if (a) {'', js ''  for (b) {'', js ''}}''] 1)"
    by metis
  with lt c show ?thesis by simp
qed

text \<open>
  C3: when \<open>calculateMaxNestingDepth\<close> reports a maximum above 0, its locations are as
  many as the maximum, tagged with the depths 1 to the maximum in this order, and they are
  the snapshot of the stack taken on the first line whose depth is the maximum, which no
  later line replaces; when the maximum is 0 there are no locations.
\<close>

theorem nesting_locations_first_maximum:
  "0 \<le> maxN (calculateMaxNestingDepth lines)
   \<and> (maxN (calculateMaxNestingDepth lines) = 0 \<longrightarrow> locationsN (calculateMaxNestingDepth lines) = [])
   \<and> (0 < maxN (calculateMaxNestingDepth lines) \<longrightarrow>
        int (length (locationsN (calculateMaxNestingDepth lines))) = maxN (calculateMaxNestingDepth lines)
        \<and> map depth (locationsN (calculateMaxNestingDepth lines))
            = map Some [1..<Suc (nat (maxN (calculateMaxNestingDepth lines)))]
        \<and> (\<exists>k<length lines.
              currentDepth (afterOpen lines k) = maxN (calculateMaxNestingDepth lines)
              \<and> locationsN (calculateMaxNestingDepth lines) = snapshot (stack (afterOpen lines k))
              \<and> (\<forall>j<k. currentDepth (afterOpen lines j) < maxN (calculateMaxNestingDepth lines))))
   \<and> (\<forall>j<length lines. currentDepth (afterOpen lines j) \<le> maxN (calculateMaxNestingDepth lines))"
proof -
  let ?st = "scanState lines"
  have r: "maxN (calculateMaxNestingDepth lines) = maxDepth ?st"
          "locationsN (calculateMaxNestingDepth lines) = locationsS ?st"
    by (simp_all add: calculateMaxNestingDepth_def scanState_def Let_def)
  have inv: "nestingInv ?st" by (rule nestingInv_scanState)
  then have len: "maxDepth ?st = int (length (locationsS ?st))"
    and tags: "map depth (locationsS ?st) = map Some [1..<Suc (length (locationsS ?st))]"
    by (simp_all add: nestingInv_def)
  from len have a: "0 \<le> maxDepth ?st" and b: "maxDepth ?st = 0 \<longrightarrow> locationsS ?st = []"
    and n: "nat (maxDepth ?st) = length (locationsS ?st)"
    by simp_all
  from firstMax_all[of lines]
  have le: "\<forall>j<length lines. currentDepth (afterOpen lines j) \<le> maxDepth ?st"
    and ex: "0 < maxDepth ?st \<longrightarrow> (\<exists>k<length lines. currentDepth (afterOpen lines k) = maxDepth ?st
        \<and> locationsS ?st = snapshot (stack (afterOpen lines k))
        \<and> (\<forall>j<k. currentDepth (afterOpen lines j) < maxDepth ?st))"
    by (simp_all add: firstMax_def Let_def)
  from a b le ex len tags n show ?thesis
    unfolding r by simp
qed

theorem nesting_locations_first_maximum_witness:
  "0 < maxN (calculateMaxNestingDepth [js ''if (a) {'', js ''}'', js ''for (b) {'', js ''}''])
   \<and> locationsN (calculateMaxNestingDepth [js ''if (a) {'', js ''}'', js ''for (b) {'', js ''}''])
       = [\<lparr>line = 1, code = js ''if (a) {'', depth = Some 1\<rparr>]
   \<and> map depth (locationsN (calculateMaxNestingDepth [js ''if (a) {'', js ''}'', js ''for (b) {'', js ''}'']))
       = map Some [1..<Suc (nat (maxN (calculateMaxNestingDepth [js ''if (a) {'', js ''}'', js ''for (b) {'', js ''}''])))]
   \<and> maxN (calculateMaxNestingDepth [js ''x = 1;'', js ''}'']) = 0
   \<and> locationsN (calculateMaxNestingDepth [js ''x = 1;'', js ''}'']) = []"
proof -
  have "maxN (calculateMaxNestingDepth [js ''if (a) {'', js ''}'', js ''for (b) {'', js ''}'']) = 1"
    "locationsN (calculateMaxNestingDepth [js ''if (a) {'', js ''}'', js ''for (b) {'', js ''}''])
       = [\<lparr>line = 1, code = js ''if (a) {'', depth = Some 1\<rparr>]"
    by code_simp+
  moreover have z: "maxN (calculateMaxNestingDepth [js ''x = 1;'', js ''}'']) = 0"
    by code_simp
  moreover from nesting_locations_first_maximum[of "[js ''x = 1;'', js ''}'']"] z
  have "locationsN (calculateMaxNestingDepth [js ''x = 1;'', js ''}'']) = []"
    by blast
  ultimately show ?thesis
    using nesting_locations_first_maximum[of "[js ''if (a) {'', js ''}'', js ''for (b) {'', js ''}'']"]
    by simp
qed

section \<open>Properties of the duplicate detector\<close>

lemma map_of_mapSet: "map_of (mapSet m k v) = (map_of m)(k \<mapsto> v)"
  by (induction m k v rule: mapSet.induct) auto

lemma keys_mapSet: "fst ` set (mapSet m k v) = insert k (fst ` set m)"
  by (induction m k v rule: mapSet.induct) auto

lemma distinct_mapSet: "distinct (map fst m) \<Longrightarrow> distinct (map fst (mapSet m k v))"
  by (induction m k v rule: mapSet.induct) (auto simp: keys_mapSet)

lemma linesWithText_snoc:
  "linesWithText (xs @ [x]) c = linesWithText xs c @ (if trim x = c then [length xs + 1] else [])"
proof -
  have "filter (\<lambda>i. trim ((xs @ [x]) ! i) = c) [0..<length xs]
      = filter (\<lambda>i. trim (xs ! i) = c) [0..<length xs]"
    by (rule filter_cong) (simp_all add: nth_append)
  then show ?thesis
    by (simp add: linesWithText_def)
qed

lemma linesWithText_empty: "c \<notin> trim ` set xs \<Longrightarrow> linesWithText xs c = []"
  by (auto simp: linesWithText_def filter_empty_conv)

lemma sorted_linesWithText: "sorted_wrt (<) (linesWithText xs c)"
proof -
  have "sorted_wrt (<) (filter (\<lambda>i. trim (xs ! i) = c) [0..<length xs])"
    by (rule sorted_wrt_filter) simp
  then show ?thesis
    by (simp add: linesWithText_def sorted_wrt_map)
qed

lemma duplicateLoop_append:
  "duplicateLoop i (xs @ ys) d =
     (case duplicateLoop i xs d of Inl e \<Rightarrow> Inl e | Inr d' \<Rightarrow> duplicateLoop (i + length xs) ys d')"
  by (induction xs arbitrary: i d) (simp_all split: sum.splits)

lemma duplicateLine_inv:
  assumes inv: "dupInv xs d"
  shows "\<exists>d'. duplicateLine x (length xs) d = Inr d' \<and> dupInv (xs @ [x]) d'"
proof (cases "eligible (trim x)")
  case False
  then have r: "duplicateLine x (length xs) d = Inr d"
    by (simp add: duplicateLine_def eligible_def Let_def)
  have "map_of d c = (if eligible c \<and> c \<in> trim ` set (xs @ [x]) then Some (linesWithText (xs @ [x]) c) else None)" for c
  proof (cases "c = trim x")
    case True
    with False inv show ?thesis by (simp add: dupInv_def)
  next
    case ne: False
    with inv show ?thesis by (auto simp: dupInv_def linesWithText_snoc)
  qed
  with inv r show ?thesis by (simp add: dupInv_def)
next
  case True
  let ?t = "trim x"
  let ?d1 = "if \<not> mapHas d ?t then mapSet d ?t [] else d"
  have get: "mapGet ?d1 ?t = Some (linesWithText xs ?t)"
  proof (cases "mapHas d ?t")
    case h: True
    then have "?t \<in> trim ` set xs"
      using inv by (auto simp: dupInv_def mapHas_def split: if_splits)
    with inv True h show ?thesis
      by (simp add: dupInv_def mapGet_def)
  next
    case h: False
    then have "map_of d ?t = None"
      by (simp add: mapHas_def)
    with inv True have "?t \<notin> trim ` set xs"
      by (auto simp: dupInv_def split: if_splits)
    then have "linesWithText xs ?t = []"
      by (rule linesWithText_empty)
    with h show ?thesis
      by (simp add: mapGet_def map_of_mapSet)
  qed
  let ?d' = "mapSet ?d1 ?t (linesWithText xs ?t @ [length xs + 1])"
  have r: "duplicateLine x (length xs) d = Inr ?d'"
    using True get by (simp add: duplicateLine_def eligible_def Let_def)
  have dist: "distinct (map fst ?d')"
    using inv by (auto simp: dupInv_def intro!: distinct_mapSet)
  have m1: "map_of ?d1 c = map_of d c" if "c \<noteq> ?t" for c
    using that by (simp add: map_of_mapSet)
  have "map_of ?d' c = (if eligible c \<and> c \<in> trim ` set (xs @ [x]) then Some (linesWithText (xs @ [x]) c) else None)" for c
  proof (cases "c = ?t")
    case e: True
    with True show ?thesis
      by (simp add: map_of_mapSet linesWithText_snoc)
  next
    case ne: False
    then have "map_of ?d' c = map_of d c"
      using m1[OF ne] by (simp add: map_of_mapSet)
    with ne inv show ?thesis
      by (auto simp: dupInv_def linesWithText_snoc)
  qed
  with dist r show ?thesis
    unfolding dupInv_def by blast
qed

lemma duplicateLoop_inv: "\<exists>d. duplicateLoop 0 xs [] = Inr d \<and> dupInv xs d"
proof (induction xs rule: rev_induct)
  case Nil
  show ?case by (simp add: dupInv_def)
next
  case (snoc x xs)
  then obtain d where d: "duplicateLoop 0 xs [] = Inr d" and inv: "dupInv xs d" by blast
  from duplicateLine_inv[OF inv, of x] obtain d' where
    d': "duplicateLine x (length xs) d = Inr d'" and inv': "dupInv (xs @ [x]) d'" by blast
  have "duplicateLoop 0 (xs @ [x]) [] = Inr d'"
    using d d' by (simp add: duplicateLoop_append)
  with inv' show ?case by blast
qed

lemma dupInv_entry:
  assumes "dupInv xs d" and "(c, ls) \<in> set d"
  shows "eligible c \<and> c \<in> trim ` set xs \<and> ls = linesWithText xs c"
proof -
  from assms have "map_of d c = Some ls"
    using map_of_is_SomeI[of d c ls] by (simp add: dupInv_def)
  with assms(1) show ?thesis
    by (auto simp: dupInv_def split: if_splits)
qed

lemma findDuplicatedCode_blocks:
  "\<exists>blocks. findDuplicatedCode lines = Inr blocks
     \<and> distinct (map codeD blocks)
     \<and> (\<forall>b \<in> set blocks. eligible (codeD b) \<and> codeD b \<in> trim ` set lines
           \<and> locationsD b = linesWithText lines (codeD b)
           \<and> occurrences b = length (locationsD b) \<and> 1 < length (locationsD b))"
proof -
  from duplicateLoop_inv[of lines] obtain d where
    d: "duplicateLoop 0 lines [] = Inr d" and inv: "dupInv lines d" by blast
  let ?mk = "\<lambda>(c, ls). \<lparr>codeD = c, occurrences = length ls, locationsD = ls\<rparr>"
  let ?blocks = "map ?mk (filter (\<lambda>(c, ls). 1 < length ls) d)"
  have r: "findDuplicatedCode lines = Inr ?blocks"
    by (simp add: findDuplicatedCode_def d)
  have "map codeD ?blocks = map fst (filter (\<lambda>(c, ls). 1 < length ls) d)"
    by (simp add: case_prod_unfold comp_def)
  moreover have "distinct (map fst (filter (\<lambda>(c, ls). 1 < length ls) d))"
    using inv by (simp add: dupInv_def distinct_map_filter)
  ultimately have dist: "distinct (map codeD ?blocks)" by metis
  have "eligible (codeD b) \<and> codeD b \<in> trim ` set lines
           \<and> locationsD b = linesWithText lines (codeD b)
           \<and> occurrences b = length (locationsD b) \<and> 1 < length (locationsD b)"
    if "b \<in> set ?blocks" for b
  proof -
    from that obtain c ls where e: "(c, ls) \<in> set d" "1 < length ls"
      and b: "b = \<lparr>codeD = c, occurrences = length ls, locationsD = ls\<rparr>"
      by auto
    from dupInv_entry[OF inv e(1)] e(2) b show ?thesis by simp
  qed
  with r dist show ?thesis by blast
qed

text \<open>
  C5: every block that \<open>findDuplicatedCode\<close> returns has at least two occurrences; its
  code is a trimmed line of the input, of length at least 3, that does not match
  \<^verbatim>\<open>^[)};]+$\<close> (it is not made of \<open>)\<close>, \<open>}\<close> and \<open>;\<close> alone); the blocks have pairwise
  different codes and a block lists exactly the lines whose trimmed text equals its code,
  in strictly ascending order.
\<close>

theorem duplicate_blocks_nontrivial:
  "\<exists>blocks. findDuplicatedCode lines = Inr blocks
     \<and> distinct (map codeD blocks)
     \<and> (\<forall>b \<in> set blocks.
          2 \<le> occurrences b \<and> 3 \<le> length (codeD b)
          \<and> \<not> test trivialRegex (codeD b)
          \<and> \<not> (codeD b \<noteq> [] \<and> set (codeD b) \<subseteq> set (js '')};''))
          \<and> codeD b \<in> trim ` set lines
          \<and> locationsD b = linesWithText lines (codeD b)
          \<and> sorted_wrt (<) (locationsD b))"
proof -
  from findDuplicatedCode_blocks[of lines] obtain blocks where
    r: "findDuplicatedCode lines = Inr blocks" and dist: "distinct (map codeD blocks)"
    and all: "\<forall>b \<in> set blocks. eligible (codeD b) \<and> codeD b \<in> trim ` set lines
           \<and> locationsD b = linesWithText lines (codeD b)
           \<and> occurrences b = length (locationsD b) \<and> 1 < length (locationsD b)"
    by blast
  have "2 \<le> occurrences b \<and> 3 \<le> length (codeD b)
          \<and> \<not> test trivialRegex (codeD b)
          \<and> \<not> (codeD b \<noteq> [] \<and> set (codeD b) \<subseteq> set (js '')};''))
          \<and> codeD b \<in> trim ` set lines
          \<and> locationsD b = linesWithText lines (codeD b)
          \<and> sorted_wrt (<) (locationsD b)" if "b \<in> set blocks" for b
  proof -
    from all that have e: "eligible (codeD b)" and t: "codeD b \<in> trim ` set lines"
      and l: "locationsD b = linesWithText lines (codeD b)"
      and o: "occurrences b = length (locationsD b)" "1 < length (locationsD b)"
      by blast+
    from e have len: "3 \<le> length (codeD b)" and nt: "\<not> test trivialRegex (codeD b)"
      by (simp_all add: eligible_def minLineLength_def)
    from nt have np: "\<not> (codeD b \<noteq> [] \<and> set (codeD b) \<subseteq> set (js '')};''))"
      using test_trivial[of "codeD b"] by blast
    have srt: "sorted_wrt (<) (locationsD b)"
      unfolding l by (rule sorted_linesWithText)
    from o have two: "2 \<le> occurrences b" by simp
    from two len nt np t l srt show ?thesis by blast
  qed
  with r dist show ?thesis by blast
qed

theorem duplicate_blocks_nontrivial_witness:
  "findDuplicatedCode [js ''const x = 1;'', js ''});'', js ''  const x = 1;'', js ''});'', js ''a;'', js ''a;'']
     = Inr [\<lparr>codeD = js ''const x = 1;'', occurrences = 2, locationsD = [1, 3]\<rparr>]
   \<and> linesWithText [js ''const x = 1;'', js ''});'', js ''  const x = 1;'', js ''});'', js ''a;'', js ''a;'']
        (js ''const x = 1;'') = [1, 3]
   \<and> \<not> test trivialRegex (js ''const x = 1;'')"
proof -
  have "findDuplicatedCode [js ''const x = 1;'', js ''});'', js ''  const x = 1;'', js ''});'', js ''a;'', js ''a;'']
     = Inr [\<lparr>codeD = js ''const x = 1;'', occurrences = 2, locationsD = [1, 3]\<rparr>]"
    by code_simp
  with duplicate_blocks_nontrivial[of "[js ''const x = 1;'', js ''});'', js ''  const x = 1;'', js ''});'', js ''a;'', js ''a;'']"]
  show ?thesis by auto
qed

text \<open>
  C10: in every block that \<open>findDuplicatedCode\<close> returns, \<open>occurrences\<close> is the length of
  \<open>locations\<close>.
\<close>

theorem duplicate_occurrences_is_length:
  "\<exists>blocks. findDuplicatedCode lines = Inr blocks
     \<and> (\<forall>b \<in> set blocks. occurrences b = length (locationsD b))"
  using findDuplicatedCode_blocks[of lines] by blast

theorem duplicate_occurrences_is_length_witness:
  "findDuplicatedCode [js ''let y;'', js ''let y;'', js ''  let y;'']
     = Inr [\<lparr>codeD = js ''let y;'', occurrences = 3, locationsD = [1, 2, 3]\<rparr>]
   \<and> occurrences \<lparr>codeD = js ''let y;'', occurrences = 3, locationsD = [1, 2, 3]\<rparr>
       = length (locationsD \<lparr>codeD = js ''let y;'', occurrences = 3, locationsD = [1, 2, 3]\<rparr>)"
proof -
  have "findDuplicatedCode [js ''let y;'', js ''let y;'', js ''  let y;'']
     = Inr [\<lparr>codeD = js ''let y;'', occurrences = 3, locationsD = [1, 2, 3]\<rparr>]"
    by code_simp
  with duplicate_occurrences_is_length[of "[js ''let y;'', js ''let y;'', js ''  let y;'']"]
  show ?thesis by auto
qed

section \<open>Properties of the documentation scorer\<close>

lemma complexLineCount_snoc:
  "complexLineCount (xs @ [x]) = complexLineCount xs + (if isComplex (trim x) then 1 else 0)"
proof -
  have "filter (\<lambda>i. isComplex (trim ((xs @ [x]) ! i))) [0..<length xs]
      = filter (\<lambda>i. isComplex (trim (xs ! i))) [0..<length xs]"
    by (rule filter_cong) (simp_all add: nth_append)
  then show ?thesis
    by (simp add: complexLineCount_def)
qed

lemma documentedLineCount_snoc:
  "documentedLineCount (xs @ [x]) =
     documentedLineCount xs
       + (if isComplex (trim x) \<and> xs \<noteq> [] \<and> isComment (trim (last xs)) then 1 else 0)"
proof -
  have "filter (\<lambda>i. isComplex (trim ((xs @ [x]) ! i)) \<and> 0 < i \<and> isComment (trim ((xs @ [x]) ! (i - 1))))
          [0..<length xs]
      = filter (\<lambda>i. isComplex (trim (xs ! i)) \<and> 0 < i \<and> isComment (trim (xs ! (i - 1))))
          [0..<length xs]"
    by (rule filter_cong) (auto simp: nth_append)
  moreover have "(xs @ [x]) ! (length xs - 1) = last xs" if "xs \<noteq> []"
    using that by (simp add: nth_append last_conv_nth)
  ultimately show ?thesis
    by (auto simp: documentedLineCount_def)
qed

lemma documentation_loop:
  "totalS (forEach documentationLine 0 xs docInit) = complexLineCount xs
   \<and> documentedS (forEach documentationLine 0 xs docInit) = documentedLineCount xs
   \<and> lastLineWasComment (forEach documentationLine 0 xs docInit)
       = (xs \<noteq> [] \<and> isComment (trim (last xs)))"
proof (induction xs rule: rev_induct)
  case Nil
  show ?case
    by (simp add: docInit_def complexLineCount_def documentedLineCount_def)
next
  case (snoc x xs)
  let ?st = "forEach documentationLine 0 xs docInit"
  from snoc have t: "totalS ?st = complexLineCount xs"
    and d: "documentedS ?st = documentedLineCount xs"
    and c: "lastLineWasComment ?st = (xs \<noteq> [] \<and> isComment (trim (last xs)))"
    by simp_all
  have step: "forEach documentationLine 0 (xs @ [x]) docInit = documentationLine x (length xs) ?st"
    by (simp add: forEach_snoc)
  show ?case
  proof (cases "xs = []")
    case True
    then show ?thesis
      by (simp add: documentationLine_def Let_def docInit_def complexLineCount_def
          documentedLineCount_def)
  next
    case False
    then show ?thesis
      unfolding step
      by (simp add: documentationLine_def Let_def complexLineCount_snoc
          documentedLineCount_snoc t d c)
  qed
qed

lemma documentedLineCount_le: "documentedLineCount ls \<le> complexLineCount ls"
proof -
  have "length (filter (\<lambda>i. isComplex (trim (ls ! i)) \<and> 0 < i \<and> isComment (trim (ls ! (i - 1)))) [0..<length ls])
      = length (filter (\<lambda>i. 0 < i \<and> isComment (trim (ls ! (i - 1))))
          (filter (\<lambda>i. isComplex (trim (ls ! i))) [0..<length ls]))"
    by (simp add: conj_commute)
  also have "\<dots> \<le> length (filter (\<lambda>i. isComplex (trim (ls ! i))) [0..<length ls])"
    by (rule length_filter_le)
  finally show ?thesis
    by (simp add: documentedLineCount_def complexLineCount_def)
qed

lemma analyzeDocumentation_eq:
  "analyzeDocumentation ls =
     \<lparr>totalComplexLines = complexLineCount ls,
      documentedComplexLines = documentedLineCount ls,
      percentage = (if complexLineCount ls = 0 then 100
                    else roundDouble
                           (roundDouble (of_nat (documentedLineCount ls) / of_nat (complexLineCount ls))
                              * 100))\<rparr>"
  using documentation_loop[of ls]
  by (simp add: analyzeDocumentation_def docInit_def Let_def)

lemma coverage_quotient:
  "0 \<le> (of_nat (documentedLineCount ls) / of_nat (complexLineCount ls) :: rat)
   \<and> (of_nat (documentedLineCount ls) / of_nat (complexLineCount ls) :: rat) \<le> 1"
proof (cases "complexLineCount ls = 0")
  case True
  then show ?thesis by simp
next
  case False
  have "(of_nat (documentedLineCount ls) :: rat) \<le> of_nat (complexLineCount ls)"
    using documentedLineCount_le[of ls] by (simp only: of_nat_le_iff)
  with False show ?thesis
    by (simp add: divide_le_eq_1)
qed

lemma percentage_bounds:
  "0 \<le> percentage (analyzeDocumentation ls) \<and> percentage (analyzeDocumentation ls) \<le> 100"
proof (cases "complexLineCount ls = 0")
  case True
  then show ?thesis by (simp add: analyzeDocumentation_eq)
next
  case False
  let ?q = "of_nat (documentedLineCount ls) / of_nat (complexLineCount ls) :: rat"
  from coverage_quotient[of ls] have q: "0 \<le> ?q" "?q \<le> 1" by simp_all
  have q1: "0 \<le> roundDouble ?q" "roundDouble ?q \<le> 1"
    using roundDouble_nonneg[OF q(1)] roundDouble_le_1[OF q] by simp_all
  then have h: "0 \<le> roundDouble ?q * 100" "roundDouble ?q * 100 \<le> 100"
    by simp_all
  have p: "percentage (analyzeDocumentation ls) = roundDouble (roundDouble ?q * 100)"
    using False by (simp add: analyzeDocumentation_eq)
  show ?thesis
    unfolding p using roundDouble_nonneg[OF h(1)] roundDouble_le_100[OF h] by simp
qed

lemma percentage_near:
  "\<bar>percentage (analyzeDocumentation ls)
      - (if complexLineCount ls = 0 then 100
         else 100 * of_nat (documentedLineCount ls) / of_nat (complexLineCount ls))\<bar>
     \<le> 100 / 2 ^ 52"
proof (cases "complexLineCount ls = 0")
  case True
  then show ?thesis by (simp add: analyzeDocumentation_eq)
next
  case False
  let ?q = "of_nat (documentedLineCount ls) / of_nat (complexLineCount ls) :: rat"
  from coverage_quotient[of ls] have q: "0 \<le> ?q" "?q \<le> 1" by simp_all
  have p: "percentage (analyzeDocumentation ls) = roundDouble (roundDouble ?q * 100)"
    using False by (simp add: analyzeDocumentation_eq)
  have "\<bar>roundDouble (roundDouble ?q * 100) - 100 * ?q\<bar> \<le> 100 / 2 ^ 52"
    by (rule percentage_error[OF q])
  with False show ?thesis
    unfolding p by simp
qed

lemma isComplex_eq:
  "isComplex l =
     (test (seqs [Lit (js ''function''), Plus Space, Plus WordCh]) l
      \<or> test (seqs [Lit (js ''class''), Plus Space, Plus WordCh]) l
      \<or> test (seqs [Lit (js ''interface''), Plus Space, Plus WordCh]) l
      \<or> containsWholeWord (js ''if'') l \<or> containsWholeWord (js ''for'') l
      \<or> containsWholeWord (js ''while'') l \<or> containsWholeWord (js ''switch'') l)"
  unfolding isComplex_def complexPatterns_def list_ex_Cons_iff list_ex_Nil_iff test_word[OF isWord_keywords(1)]
    test_word[OF isWord_keywords(2)] test_word[OF isWord_keywords(3)]
    test_word[OF isWord_keywords(4)]
  by simp

lemma documentation_example:
  "analyzeDocumentation (split (js ''// comment'' @ [newline] @ js ''if (x) { }'') newline)
     = \<lparr>totalComplexLines = 1, documentedComplexLines = 1, percentage = 100\<rparr>"
  by code_simp

text \<open>
  C4, as stated: the returned percentage equals \<open>100 * documentedComplexLines /
  totalComplexLines\<close> when there is a complex line. It does not: the source divides first
  and multiplies by 100 after, and both operations round. Of the 20 complex lines of
  \<open>elevenOfTwenty\<close> 11 are documented; \<open>11 / 20\<close> rounds to a double above 0.55, and
  the percentage is \<open>55.00000000000001\<close>, the double \<open>55 + 2 ^ -47\<close>, where
  \<open>100 * 11 / 20\<close> is 55.
\<close>

theorem documentation_percentage_counterexample:
  "totalComplexLines (analyzeDocumentation elevenOfTwenty) = 20
   \<and> documentedComplexLines (analyzeDocumentation elevenOfTwenty) = 11
   \<and> percentage (analyzeDocumentation elevenOfTwenty) = 55 + 1 / 2 ^ 47
   \<and> percentage (analyzeDocumentation elevenOfTwenty)
       \<noteq> 100 * of_nat (documentedComplexLines (analyzeDocumentation elevenOfTwenty))
             / of_nat (totalComplexLines (analyzeDocumentation elevenOfTwenty))"
proof -
  have t: "totalComplexLines (analyzeDocumentation elevenOfTwenty) = 20"
    by code_simp
  have d: "documentedComplexLines (analyzeDocumentation elevenOfTwenty) = 11"
    by code_simp
  have p: "percentage (analyzeDocumentation elevenOfTwenty) = 55 + 1 / 2 ^ 47"
    by code_simp
  have "(55 + 1 / 2 ^ 47 :: rat) \<noteq> 100 * of_nat 11 / of_nat 20"
    by simp
  with t d p show ?thesis by simp
qed

text \<open>
  C4, amended: \<open>analyzeDocumentation\<close> counts in \<open>totalComplexLines\<close> the lines whose
  trimmed text is complex (it matches one of the three declaration patterns or contains a
  whole-word \<open>if\<close>, \<open>for\<close>, \<open>while\<close> or \<open>switch\<close>) and in \<open>documentedComplexLines\<close>
  those of them whose preceding line, trimmed, begins with \<open>//\<close>, \<open>/*\<close> or \<open>*\<close>;
  \<open>percentage\<close> is 100 when there is no complex line and otherwise the double
  \<open>(documented / total) * 100\<close>, the quotient rounded to a double and its product with
  100 rounded again, which is within \<open>100 * 2 ^ -52\<close> of \<open>100 * documented / total\<close>;
  it lies in \<open>[0, 100]\<close> and \<open>documented \<le> total\<close>; a comment line followed by
  \<open>if (x) { }\<close> gives 1, 1 and 100.
\<close>

theorem documentation_coverage_counts:
  "totalComplexLines (analyzeDocumentation lines) = complexLineCount lines
   \<and> documentedComplexLines (analyzeDocumentation lines) = documentedLineCount lines
   \<and> percentage (analyzeDocumentation lines)
       = (if totalComplexLines (analyzeDocumentation lines) = 0 then 100
          else roundDouble
                 (roundDouble
                    (of_nat (documentedComplexLines (analyzeDocumentation lines))
                       / of_nat (totalComplexLines (analyzeDocumentation lines)))
                  * 100))
   \<and> \<bar>percentage (analyzeDocumentation lines)
        - (if totalComplexLines (analyzeDocumentation lines) = 0 then 100
           else 100 * of_nat (documentedComplexLines (analyzeDocumentation lines))
                  / of_nat (totalComplexLines (analyzeDocumentation lines)))\<bar>
       \<le> 100 / 2 ^ 52
   \<and> documentedComplexLines (analyzeDocumentation lines)
       \<le> totalComplexLines (analyzeDocumentation lines)
   \<and> 0 \<le> percentage (analyzeDocumentation lines)
   \<and> percentage (analyzeDocumentation lines) \<le> 100
   \<and> isComplex l =
        (test (seqs [Lit (js ''function''), Plus Space, Plus WordCh]) l
         \<or> test (seqs [Lit (js ''class''), Plus Space, Plus WordCh]) l
         \<or> test (seqs [Lit (js ''interface''), Plus Space, Plus WordCh]) l
         \<or> containsWholeWord (js ''if'') l \<or> containsWholeWord (js ''for'') l
         \<or> containsWholeWord (js ''while'') l \<or> containsWholeWord (js ''switch'') l)
   \<and> isComment l = ((\<exists>r. l = js ''//'' @ r) \<or> (\<exists>r. l = js ''/*'' @ r) \<or> (\<exists>r. l = js ''*'' @ r))
   \<and> analyzeDocumentation (split (js ''// comment'' @ [newline] @ js ''if (x) { }'') newline)
       = \<lparr>totalComplexLines = 1, documentedComplexLines = 1, percentage = 100\<rparr>"
proof -
  have "startsWith l p = (\<exists>r. l = p @ r)" for p
    unfolding startsWith_def by (metis append_eq_conv_conj append_take_drop_id)
  then have c: "isComment l
      = ((\<exists>r. l = js ''//'' @ r) \<or> (\<exists>r. l = js ''/*'' @ r) \<or> (\<exists>r. l = js ''*'' @ r))"
    by (simp only: isComment_def)
  have t: "totalComplexLines (analyzeDocumentation lines) = complexLineCount lines"
    and d: "documentedComplexLines (analyzeDocumentation lines) = documentedLineCount lines"
    by (simp_all add: analyzeDocumentation_eq)
  have p: "percentage (analyzeDocumentation lines)
       = (if totalComplexLines (analyzeDocumentation lines) = 0 then 100
          else roundDouble
                 (roundDouble
                    (of_nat (documentedComplexLines (analyzeDocumentation lines))
                       / of_nat (totalComplexLines (analyzeDocumentation lines)))
                  * 100))"
    by (simp add: analyzeDocumentation_eq)
  have n: "\<bar>percentage (analyzeDocumentation lines)
        - (if totalComplexLines (analyzeDocumentation lines) = 0 then 100
           else 100 * of_nat (documentedComplexLines (analyzeDocumentation lines))
                  / of_nat (totalComplexLines (analyzeDocumentation lines)))\<bar>
       \<le> 100 / 2 ^ 52"
    unfolding t d by (rule percentage_near)
  have le: "documentedComplexLines (analyzeDocumentation lines)
       \<le> totalComplexLines (analyzeDocumentation lines)"
    unfolding t d by (rule documentedLineCount_le)
  from t d p n le percentage_bounds[of lines] isComplex_eq[of l] c documentation_example
  show ?thesis by blast
qed

section \<open>Properties of the complexity analyzer\<close>

lemma lineLocations_snoc: "i < length xs \<Longrightarrow> lineLocations (xs @ [x]) i = lineLocations xs i"
  by (simp add: lineLocations_def locationOf_def nth_append)

lemma complexityLine_eq:
  "complexityLine x (length xs) st =
     \<lparr>complexity = complexity st + lineScore x,
      locationsC = locationsC st @ lineLocations (xs @ [x]) (length xs)\<rparr>"
proof -
  have z: "matchCount controlFlowRegex x 0 = 0" if "\<not> test controlFlowRegex x"
    using that matchCount_pos[of controlFlowRegex x] by simp
  show ?thesis
    by (cases st)
       (auto simp: complexityLine_def Let_def lineScore_def lineLocations_def locationOf_def
          countsElse_def matchCount_pos z)
qed

lemma complexity_loop:
  "forEach complexityLine 0 xs complexityInit =
     \<lparr>complexity = 1 + sum_list (map lineScore xs),
      locationsC = concat (map (lineLocations xs) [0..<length xs])\<rparr>"
proof (induction xs rule: rev_induct)
  case Nil
  show ?case by (simp add: complexityInit_def)
next
  case (snoc x xs)
  have "map (lineLocations (xs @ [x])) [0..<length xs] = map (lineLocations xs) [0..<length xs]"
    by (rule map_cong) (simp_all add: lineLocations_snoc)
  then have m: "concat (map (lineLocations (xs @ [x])) [0..<length xs])
      = concat (map (lineLocations xs) [0..<length xs])"
    by (rule arg_cong)
  show ?case
    by (simp add: forEach_snoc snoc complexityLine_eq m)
qed

lemma calculateCyclomaticComplexity_eq:
  "calculateCyclomaticComplexity src =
     \<lparr>total = 1 + sum_list (map lineScore (split src newline)),
      locations = concat (map (lineLocations (split src newline)) [0..<length (split src newline)])\<rparr>"
  using complexity_loop[of "split src newline"]
  by (simp add: calculateCyclomaticComplexity_def complexityInit_def Let_def)






section \<open>The complexity total\<close>

lemma length_filter_words:
  assumes "distinct ws" and "\<forall>w\<in>set ws. isWord w"
  shows "length (filter (\<lambda>j. \<exists>w\<in>set ws. wholeWordAt w s j) xs)
         = sum_list (map (\<lambda>w. length (filter (wholeWordAt w s) xs)) ws)"
  using assms
proof (induction ws)
  case Nil
  show ?case by simp
next
  case (Cons a ws)
  have excl: "\<not> (wholeWordAt a s x \<and> (\<exists>w\<in>set ws. wholeWordAt w s x))" for x
  proof
    assume "wholeWordAt a s x \<and> (\<exists>w\<in>set ws. wholeWordAt w s x)"
    then obtain w where w: "w \<in> set ws" "wholeWordAt w s x" and a: "wholeWordAt a s x" by blast
    from Cons.prems(2) w(1) have "isWord a" "isWord w" by simp_all
    from wholeWordAt_unique[OF this a w(2)] w(1) Cons.prems(1) show False by simp
  qed
  have "length (filter (\<lambda>j. \<exists>w\<in>set (a # ws). wholeWordAt w s j) xs)
      = length (filter (\<lambda>j. wholeWordAt a s j \<or> (\<exists>w\<in>set ws. wholeWordAt w s j)) xs)"
    by simp
  also have "\<dots> = length (filter (wholeWordAt a s) xs)
                   + length (filter (\<lambda>j. \<exists>w\<in>set ws. wholeWordAt w s j) xs)"
    using excl by (rule length_filter_disj)
  finally show ?case
    using Cons by simp
qed

lemma decisionKeywords_words: "decisionKeywords \<noteq> []" "\<forall>w\<in>set decisionKeywords. isWord w"
  "distinct decisionKeywords"
  by (simp_all add: decisionKeywords_def isWord_keywords) (simp add: js_def)

lemma controlFlowRegex_eq:
  "controlFlowRegex =
     Alt (wordRegex decisionKeywords)
       (Alt (Lit (js ''&&'')) (Alt (Lit (js ''||'')) (Lit (js ''?''))))"
  by (simp add: controlFlowRegex_def wordRegex_def decisionKeywords_def)

lemma matchCount_keywords:
  "matchCount (wordRegex decisionKeywords) s 0
     = sum_list (map (\<lambda>w. wholeWordCount w s) decisionKeywords)"
  unfolding matchCount_wordRegex[OF decisionKeywords_words(1,2)] wholeWordCount_def
  using decisionKeywords_words(3,2) by (rule length_filter_words)

lemma length_filter_nth: "length (filter (\<lambda>j. P (s ! j)) [0..<length s]) = length (filter P s)"
proof -
  have "length (filter P s) = length (filter P (map (\<lambda>j. s ! j) [0..<length s]))"
    by (simp add: map_nth)
  also have "\<dots> = length (filter (\<lambda>j. P (s ! j)) [0..<length s])"
    by (simp add: filter_map comp_def)
  finally show ?thesis by simp
qed

lemma ends_Lit_single: "(ends (Lit [c]) s j \<noteq> []) = (j < length s \<and> s ! j = c)"
proof (cases "j < length s")
  case True
  then have "take 1 (drop j s) = [s ! j]"
    by (simp add: take_Suc_conv_app_nth)
  then show ?thesis using True by auto
next
  case False
  then show ?thesis by simp
qed

lemma matchCount_single: "matchCount (Lit [c]) s 0 = length (filter (\<lambda>x. x = c) s)"
proof -
  have inner: "j < e \<and> (\<forall>k. j < k \<and> k < e \<longrightarrow> ends (Lit [c]) s k = [])"
    if "ends (Lit [c]) s j = e # es" for j e es
    using that by (auto split: if_splits)
  have last: "ends (Lit [c]) s (length s) = []"
    by simp
  have "matchCount (Lit [c]) s 0 = length (filter (\<lambda>j. ends (Lit [c]) s j \<noteq> []) [0..<length s])"
    using inner last by (rule matchCount_positions)
  also have "\<dots> = length (filter (\<lambda>j. s ! j = c) [0..<length s])"
    by (rule arg_cong[where f = length], rule filter_cong) (simp_all only: ends_Lit_single set_upt atLeastLessThan_iff simp_thms)
  also have "\<dots> = length (filter (\<lambda>x. x = c) s)"
    by (rule length_filter_nth)
  finally show ?thesis .
qed

lemma not_word_operators: "\<not> isWordChar 0x26" "\<not> isWordChar 0x7C" "\<not> isWordChar 0x3F"
  by (simp_all add: isWordChar_def)

lemma matchCount_controlFlow: "matchCount controlFlowRegex s 0 = tokenOccurrences s"
proof -
  let ?kw = "wordRegex decisionKeywords"
  let ?amp = "Lit (js ''&&'')" and ?bar = "Lit (js ''||'')" and ?q = "Lit (js ''?'')"
  note kw = decisionKeywords_words(1,2)
  have s_amp: "startsIn ?amp s {0x26}" and c_amp: "covers ?amp s {0x26}"
    using startsIn_Lit[of "js ''&&''" s] covers_Lit[of "js ''&&''" s] by (simp_all add: js_def)
  have s_bar: "startsIn ?bar s {0x7C}" and c_bar: "covers ?bar s {0x7C}"
    using startsIn_Lit[of "js ''||''" s] covers_Lit[of "js ''||''" s] by (simp_all add: js_def)
  have s_q: "startsIn ?q s {0x3F}" and c_q: "covers ?q s {0x3F}"
    using startsIn_Lit[of "js ''?''" s] covers_Lit[of "js ''?''" s] by (simp_all add: js_def)
  have 1: "matchCount (Alt ?bar ?q) s 0 = matchCount ?bar s 0 + matchCount ?q s 0"
    by (rule matchCount_Alt_disjoint[OF c_bar s_q _ c_q s_bar]) simp_all
  have 2: "matchCount (Alt ?amp (Alt ?bar ?q)) s 0
      = matchCount ?amp s 0 + matchCount (Alt ?bar ?q) s 0"
    by (rule matchCount_Alt_disjoint[OF c_amp startsIn_Alt[OF s_bar s_q] _
          covers_Alt[OF c_bar c_q] s_amp]) simp_all
  have 3: "matchCount (Alt ?kw (Alt ?amp (Alt ?bar ?q))) s 0
      = matchCount ?kw s 0 + matchCount (Alt ?amp (Alt ?bar ?q)) s 0"
    by (rule matchCount_Alt_disjoint[OF covers_wordRegex[OF kw]
          startsIn_Alt[OF s_amp startsIn_Alt[OF s_bar s_q]] _
          covers_Alt[OF c_amp covers_Alt[OF c_bar c_q]] startsIn_wordRegex[OF kw]])
       (auto simp: not_word_operators)
  have 4: "matchCount ?q s 0 = questionMarks s"
    using matchCount_single[of "0x3F" s] by (simp add: js_def questionMarks_def)
  have 5: "matchCount ?amp s 0 = occurrencesOf (js ''&&'') s"
    "matchCount ?bar s 0 = occurrencesOf (js ''||'') s"
    by (rule matchCount_Lit, simp add: js_def)+
  show ?thesis
    unfolding controlFlowRegex_eq 3 2 1 4 5 matchCount_keywords tokenOccurrences_def
    by simp
qed

lemma space_not_word: "isWhiteSpace c \<Longrightarrow> \<not> isWordChar c"
  by (auto simp: isWhiteSpace_def isLineTerminator_def isWordChar_def word_le_nat_alt)

lemma run_pos: "0 < run c s i \<Longrightarrow> i < length s \<and> inClass c (s ! i)"
proof -
  assume "0 < run c s i"
  then have ne: "takeWhile (inClass c) (drop i s) \<noteq> []"
    by (simp add: run_def)
  then have d: "drop i s \<noteq> []" by auto
  then have i: "i < length s" by simp
  from ne d have "inClass c (hd (drop i s))"
    by (cases "drop i s") (auto split: if_splits)
  with i show ?thesis by (simp add: hd_drop_conv_nth)
qed

lemma followedByIf_space:
  assumes "followedByIf s k"
  shows "\<not> wordAt s k"
proof -
  from assms obtain e where "matches (seqs [Plus Space, Lit (js ''if''), WordBoundary]) s k e"
    unfolding followedByIf_def ends_nonempty by blast
  then have "0 < run Space s k"
    by (auto simp: matches_simps)
  from run_pos[OF this] show ?thesis
    by (simp add: wordAt_def space_not_word)
qed

lemma matches_elseIf:
  "(\<exists>e. matches elseIfRegex s i e) = (wholeWordAt (js ''else'') s i \<and> followedByIf s (i + 4))"
proof -
  have len: "length (js ''else'') = 4" by (simp add: js_def)
  have "matches elseIfRegex s i e
      = (wordBefore s i \<noteq> wordAt s i \<and> take 4 (drop i s) = js ''else''
         \<and> matches (seqs [Plus Space, Lit (js ''if''), WordBoundary]) s (i + 4) e)" for e
    by (simp add: elseIfRegex_def matches_Seq[of WordBoundary]
        matches_Seq[where a = "Lit w" for w] matches_WordBoundary matches_Lit len)
  then have "(\<exists>e. matches elseIfRegex s i e)
      = (wordBefore s i \<noteq> wordAt s i \<and> take 4 (drop i s) = js ''else'' \<and> followedByIf s (i + 4))"
    unfolding followedByIf_def ends_nonempty by simp
  also have "\<dots> = (wholeWordAt (js ''else'') s i \<and> followedByIf s (i + 4))"
    using word_literal_boundaries(1)[OF isWord_keywords(7), of i s] followedByIf_space[of s "i + 4"]
    by (auto simp: wholeWordAt_def len)
  finally show ?thesis .
qed

lemma test_elseIf: "test elseIfRegex s = containsElseIf s"
proof -
  have "test elseIfRegex s = (\<exists>i\<le>length s. wholeWordAt (js ''else'') s i \<and> followedByIf s (i + 4))"
    unfolding test_matches matches_elseIf ..
  also have "\<dots> = (\<exists>i<length s. wholeWordAt (js ''else'') s i \<and> followedByIf s (i + 4))"
    using wholeWordAt_bound[OF isWord_keywords(7)] by (meson less_imp_le_nat)
  finally show ?thesis
    by (auto simp: containsElseIf_def list_ex_iff)
qed

lemma countsElse_eq: "countsElse s = (containsBareElse s \<and> \<not> containsElseIf s)"
proof -
  have "test elseRegex s = containsWholeWord (js ''else'') s"
    unfolding elseRegex_def by (rule test_word[OF isWord_keywords(7)])
  then show ?thesis
    unfolding countsElse_def test_elseIf
    by (auto simp: containsWholeWord_def containsBareElse_def containsElseIf_def bareElseAt_def
        list_ex_iff)
qed

lemma complexity_examples:
  "total (calculateCyclomaticComplexity (js ''if (a && b)'')) = 3"
  "tokenOccurrences (js ''if (a && b)'') = 2"
  "total (calculateCyclomaticComplexity (js ''ifValue = 1'')) = 1"
  "tokenOccurrences (js ''ifValue = 1'') = 0"
  by code_simp+

text \<open>
  What the scan adds up: 1 plus, over the lines, the whole-word occurrences of \<open>if\<close>,
  \<open>while\<close>, \<open>for\<close>, \<open>case\<close>, \<open>catch\<close>, the occurrences of \<open>&&\<close> and \<open>||\<close> and the number
  of \<open>?\<close> characters, and one for each line on which \<open>/\belse\b/\<close> matches and
  \<open>/\belse\s+if\b/\<close> does not.
\<close>

lemma complexity_total_of_scan:
  "total (calculateCyclomaticComplexity src)
     = 1 + sum_list (map (\<lambda>l. tokenOccurrences l
                              + (if containsBareElse l \<and> \<not> containsElseIf l then 1 else 0))
                      (split src newline))
   \<and> 1 \<le> total (calculateCyclomaticComplexity src)
   \<and> total (calculateCyclomaticComplexity (js ''if (a && b)'')) = 1 + 2
   \<and> tokenOccurrences (js ''if (a && b)'') = 2
   \<and> total (calculateCyclomaticComplexity (js ''ifValue = 1'')) = 1
   \<and> tokenOccurrences (js ''ifValue = 1'') = 0"
proof -
  have "lineScore = (\<lambda>l. tokenOccurrences l
                              + (if containsBareElse l \<and> \<not> containsElseIf l then 1 else 0))"
    by (rule ext) (simp only: lineScore_def matchCount_controlFlow countsElse_eq)
  then have t: "total (calculateCyclomaticComplexity src)
     = 1 + sum_list (map (\<lambda>l. tokenOccurrences l
                              + (if containsBareElse l \<and> \<not> containsElseIf l then 1 else 0))
                      (split src newline))"
    by (simp add: calculateCyclomaticComplexity_eq)
  have "1 \<le> total (calculateCyclomaticComplexity src)"
    by (simp add: calculateCyclomaticComplexity_eq)
  with t complexity_examples show ?thesis by simp
qed

text \<open>
  C2: the total is 1 plus, over the lines, the whole-word occurrences of \<open>if\<close>, \<open>while\<close>,
  \<open>for\<close>, \<open>case\<close>, \<open>catch\<close>, the occurrences of \<open>&&\<close>, \<open>||\<close> and \<open>?\<close>, and one for each
  line containing an \<open>else\<close> not followed immediately by \<open>if\<close>; that sum is
  \<open>claimedTotal\<close>. The source announces the same (\<open>// Count each else as a new path\<close>),
  but its test \<open>!/\belse\s+if\b/.test(line)\<close> is on the whole line: on
  \<open>if (a) x(); else if (b) y(); else z();\<close> the last \<open>else\<close> is not followed by \<open>if\<close>, the
  \<open>else if\<close> before it keeps the line from being counted, and the code returns 3 where
  the sum is 4.
\<close>

theorem complexity_total_misses_else:
  "total (calculateCyclomaticComplexity (js ''if (a) x(); else if (b) y(); else z();'')) = 3
   \<and> claimedTotal (js ''if (a) x(); else if (b) y(); else z();'') = 4
   \<and> total (calculateCyclomaticComplexity (js ''if (a) x(); else if (b) y(); else z();''))
       \<noteq> claimedTotal (js ''if (a) x(); else if (b) y(); else z();'')"
proof -
  have "total (calculateCyclomaticComplexity (js ''if (a) x(); else if (b) y(); else z();'')) = 3"
    "claimedTotal (js ''if (a) x(); else if (b) y(); else z();'') = 4"
    by code_simp+
  then show ?thesis by simp
qed

section \<open>The report\<close>

subsection \<open>Where the nesting scan raises\<close>

lemma openRuleE_eq:
  "openRuleE m t i st =
     (if opensBlock t \<and> maxDepth st < currentDepth st + 1 \<and> m < Suc (length (stack st))
      then Inl RangeError
      else Inr (openRule t i st))"
  by (simp add: openRuleE_def openRule_def Let_def length_snapshot)

lemma nestingLineE_eq:
  "nestingLineE m l i st =
     (if opensBlock (trim l) \<and> maxDepth st < currentDepth st + 1 \<and> m < Suc (length (stack st))
      then Inl RangeError
      else Inr (nestingLine l i st))"
  by (simp add: nestingLineE_def nestingLine_def Let_def openRuleE_eq)

lemma forEachE_nestingLine:
  "forEachE (nestingLineE m) i ls st = Inr st' \<Longrightarrow> st' = forEach nestingLine i ls st"
proof (induction ls arbitrary: i st)
  case Nil
  then show ?case by simp
next
  case (Cons l ls)
  from Cons.prems have "nestingLineE m l i st = Inr (nestingLine l i st)"
    by (simp add: nestingLineE_eq split: if_splits)
  with Cons show ?case by simp
qed

lemma calculateMaxNestingDepthE_returns:
  "calculateMaxNestingDepthE m ls = Inr r \<Longrightarrow> r = calculateMaxNestingDepth ls"
  by (auto simp: calculateMaxNestingDepthE_def calculateMaxNestingDepth_def Let_def
      split: sum.splits dest: forEachE_nestingLine)

lemma stack_closeLoop: "length (stack (closeLoop n st)) \<le> length (stack st)"
proof (induction n arbitrary: st)
  case 0
  show ?case by simp
next
  case (Suc n)
  have "length (stack (closeBrace st)) \<le> length (stack st)"
    by (simp add: closeBrace_def Let_def)
  with Suc[of "closeBrace st"] show ?case by simp
qed

lemma stack_openRule: "length (stack (openRule t i st)) \<le> Suc (length (stack st))"
  by (simp add: openRule_def Let_def)

lemma stack_scanState: "length (stack (scanState ls)) \<le> length ls"
proof (induction ls rule: rev_induct)
  case Nil
  show ?case by (simp add: scanState_def nestingInit_def)
next
  case (snoc x xs)
  have "length (stack (scanState (xs @ [x])))
      \<le> length (stack (openRule (trim x) (length xs) (scanState xs)))"
    by (simp add: scanState_snoc afterOpen_def stack_closeLoop)
  also have "\<dots> \<le> Suc (length (stack (scanState xs)))"
    by (rule stack_openRule)
  finally show ?case using snoc by simp
qed

text \<open>The scan returns when the text has no more lines than a call takes arguments.\<close>

lemma scan_returns:
  "length ls \<le> m \<Longrightarrow> forEachE (nestingLineE m) 0 ls nestingInit = Inr (scanState ls)"
proof (induction ls rule: rev_induct)
  case Nil
  show ?case by (simp add: scanState_def)
next
  case (snoc x xs)
  from snoc have xs: "forEachE (nestingLineE m) 0 xs nestingInit = Inr (scanState xs)"
    by simp
  from snoc.prems stack_scanState[of xs] have "\<not> m < Suc (length (stack (scanState xs)))"
    by simp
  then have "nestingLineE m x (length xs) (scanState xs)
      = Inr (nestingLine x (length xs) (scanState xs))"
    by (simp add: nestingLineE_eq)
  then show ?case
    by (simp add: forEachE_append xs scanState_def forEach_snoc)
qed

subsection \<open>The deeply nested text\<close>

lemma splitFrom_line:
  "sep \<notin> set l \<Longrightarrow> splitFrom sep cur (l @ sep # rest) = (rev cur @ l) # splitFrom sep [] rest"
  by (induction l arbitrary: cur) auto

lemma split_deepNesting:
  "split (deepNesting n) newline = replicate n (js ''if (x) {'') @ [[]]"
proof -
  have nl: "newline \<notin> set (js ''if (x) {'')"
    by code_simp
  have "splitFrom newline [] (concat (replicate n (js ''if (x) {'' @ [newline])))
      = replicate n (js ''if (x) {'') @ [[]]"
  proof (induction n)
    case 0
    show ?case by simp
  next
    case (Suc n)
    have "splitFrom newline []
            (js ''if (x) {'' @ newline # concat (replicate n (js ''if (x) {'' @ [newline])))
        = (rev [] @ js ''if (x) {'')
            # splitFrom newline [] (concat (replicate n (js ''if (x) {'' @ [newline])))"
      by (rule splitFrom_line[OF nl])
    with Suc show ?case by simp
  qed
  then show ?thesis
    by (simp add: split_def deepNesting_def)
qed

lemma opening_line:
  "opensBlock (trim (js ''if (x) {''))" "matchCount closeRegex (trim (js ''if (x) {'')) 0 = 0"
  by code_simp+

lemma scanState_opening_lines:
  "currentDepth (scanState (replicate k (js ''if (x) {''))) = int k
   \<and> maxDepth (scanState (replicate k (js ''if (x) {''))) = int k
   \<and> length (stack (scanState (replicate k (js ''if (x) {'')))) = k"
proof (induction k)
  case 0
  show ?case by (simp add: scanState_def nestingInit_def)
next
  case (Suc k)
  have r: "replicate (Suc k) (js ''if (x) {'') = replicate k (js ''if (x) {'') @ [js ''if (x) {'']"
    by (simp add: replicate_append_same)
  have "scanState (replicate k (js ''if (x) {'') @ [js ''if (x) {''])
      = nestingLine (js ''if (x) {'') k (scanState (replicate k (js ''if (x) {'')))"
    by (simp add: scanState_def forEach_snoc)
  then show ?case
    unfolding r using Suc by (simp add: nestingLine_def opening_line openRule_def Let_def)
qed

lemma scan_raises:
  assumes "m < n"
  shows "forEachE (nestingLineE m) 0 (replicate n (js ''if (x) {'') @ rest) nestingInit
           = Inl RangeError"
proof -
  let ?l = "js ''if (x) {''"
  from assms have n: "replicate n ?l = replicate m ?l @ ?l # replicate (n - Suc m) ?l"
    by (metis Suc_diff_Suc add_Suc_right le_add_diff_inverse less_imp_le_nat replicate_Suc
        replicate_add)
  have xs: "forEachE (nestingLineE m) 0 (replicate m ?l) nestingInit
      = Inr (scanState (replicate m ?l))"
    by (rule scan_returns) simp
  have "nestingLineE m ?l m (scanState (replicate m ?l)) = Inl RangeError"
    using scanState_opening_lines[of m] by (simp add: nestingLineE_eq opening_line)
  then show ?thesis
    unfolding n by (simp add: forEachE_append xs)
qed

subsection \<open>The reports that are returned\<close>

lemma analyzeCode_empty:
  "analyzeCode m [] =
     Inr \<lparr>cyclomaticComplexity = \<lparr>total = 1, locations = []\<rparr>,
          maxNestingDepth = \<lparr>maxN = 0, locationsN = []\<rparr>,
          duplicatedCodeBlocks = [],
          documentationCoverage =
            \<lparr>totalComplexLines = 0, documentedComplexLines = 0, percentage = 100\<rparr>\<rparr>"
  by code_simp

lemma wellFormed_report:
  assumes r: "findDuplicatedCode (split src newline) = Inr blocks"
  shows "wellFormed \<lparr>cyclomaticComplexity = calculateCyclomaticComplexity src,
                     maxNestingDepth = calculateMaxNestingDepth (split src newline),
                     duplicatedCodeBlocks = blocks,
                     documentationCoverage = analyzeDocumentation (split src newline)\<rparr>"
proof -
  let ?ls = "split src newline"
  from findDuplicatedCode_blocks[of ?ls] r have
    all: "\<forall>b \<in> set blocks. eligible (codeD b) \<and> codeD b \<in> trim ` set ?ls
           \<and> locationsD b = linesWithText ?ls (codeD b)
           \<and> occurrences b = length (locationsD b) \<and> 1 < length (locationsD b)"
    by auto
  have c: "1 \<le> total (calculateCyclomaticComplexity src)"
    by (simp add: calculateCyclomaticComplexity_eq)
  have inv: "nestingInv (scanState ?ls)" by (rule nestingInv_scanState)
  have n: "0 \<le> maxN (calculateMaxNestingDepth ?ls)"
    "int (length (locationsN (calculateMaxNestingDepth ?ls))) = maxN (calculateMaxNestingDepth ?ls)"
    "map depth (locationsN (calculateMaxNestingDepth ?ls))
          = map Some [1..<Suc (nat (maxN (calculateMaxNestingDepth ?ls)))]"
    using inv by (simp_all add: calculateMaxNestingDepth_def scanState_def[symmetric] Let_def nestingInv_def)
  have d: "list_all (\<lambda>b. 2 \<le> occurrences b \<and> occurrences b = length (locationsD b)
                        \<and> sorted_wrt (<) (locationsD b)) blocks"
    unfolding list_all_iff
  proof
    fix b assume "b \<in> set blocks"
    with all have "locationsD b = linesWithText ?ls (codeD b)"
      "occurrences b = length (locationsD b)" "1 < length (locationsD b)"
      by blast+
    then show "2 \<le> occurrences b \<and> occurrences b = length (locationsD b)
                        \<and> sorted_wrt (<) (locationsD b)"
      using sorted_linesWithText[of ?ls "codeD b"] by simp
  qed
  have p: "documentedComplexLines (analyzeDocumentation ?ls) \<le> totalComplexLines (analyzeDocumentation ?ls)"
    "totalComplexLines (analyzeDocumentation ?ls) = 0 \<longrightarrow> percentage (analyzeDocumentation ?ls) = 100"
    using documentedLineCount_le[of ?ls] by (simp_all add: analyzeDocumentation_eq)
  show ?thesis
    unfolding wellFormed_def using c n d p percentage_bounds[of ?ls] by simp
qed

text \<open>A report that is returned is well formed.\<close>

lemma analyzeCode_wellFormed: "analyzeCode m src = Inr r \<Longrightarrow> wellFormed r"
proof -
  assume a: "analyzeCode m src = Inr r"
  let ?ls = "split src newline"
  from a obtain nesting blocks where
    n: "calculateMaxNestingDepthE m ?ls = Inr nesting"
    and b: "findDuplicatedCode ?ls = Inr blocks"
    and r: "r = \<lparr>cyclomaticComplexity = calculateCyclomaticComplexity src,
                 maxNestingDepth = nesting,
                 duplicatedCodeBlocks = blocks,
                 documentationCoverage = analyzeDocumentation ?ls\<rparr>"
    by (auto simp: analyzeCode_def Let_def split: sum.splits)
  from n have "nesting = calculateMaxNestingDepth ?ls"
    by (rule calculateMaxNestingDepthE_returns)
  with r wellFormed_report[OF b] show ?thesis by simp
qed

text \<open>
  A text with no more lines than a call takes arguments gives a report: the stack is no
  longer than the text has lines.
\<close>

lemma analyzeCode_returns:
  assumes "length (split src newline) \<le> m"
  shows "\<exists>r. analyzeCode m src = Inr r \<and> wellFormed r"
proof -
  let ?ls = "split src newline"
  from findDuplicatedCode_blocks[of ?ls] obtain blocks where
    b: "findDuplicatedCode ?ls = Inr blocks"
    by blast
  have "calculateMaxNestingDepthE m ?ls
      = Inr \<lparr>maxN = maxDepth (scanState ?ls), locationsN = locationsS (scanState ?ls)\<rparr>"
    by (simp add: calculateMaxNestingDepthE_def scan_returns[OF assms])
  then have "\<exists>r. analyzeCode m src = Inr r"
    by (simp add: analyzeCode_def Let_def b)
  then show ?thesis
    using analyzeCode_wellFormed by blast
qed

text \<open>
  C1: \<open>analyzeCode\<close> returns a well-formed report for every input string, without
  failing. The code does not: on \<^verbatim>\<open>'if (x) {\n'.repeat(n)\<close> the nesting scan reaches a
  new maximum on every line and spreads the whole stack into the arguments of
  \<open>locations.push\<close>, so \<open>analyzeCode\<close> raises \<open>RangeError\<close> as soon as \<open>n\<close> is more than the
  engine takes arguments; whatever that bound is, there is a text that is too deep.
\<close>

theorem analyzeCode_raises_on_deep_nesting:
  "maxArguments < n \<Longrightarrow> analyzeCode maxArguments (deepNesting n) = Inl RangeError"
proof -
  assume "maxArguments < n"
  then have "forEachE (nestingLineE maxArguments) 0
               (replicate n (js ''if (x) {'') @ [[]]) nestingInit = Inl RangeError"
    by (rule scan_raises)
  then show ?thesis
    by (simp add: analyzeCode_def Let_def calculateMaxNestingDepthE_def split_deepNesting)
qed

theorem analyzeCode_raises_on_deep_nesting_witness:
  "analyzeCode 100000 (deepNesting 130000) = Inl RangeError
   \<and> analyzeCode 2 (deepNesting 3) = Inl RangeError
   \<and> analyzeCode 3 (deepNesting 3) \<noteq> Inl RangeError"
proof -
  have "analyzeCode 100000 (deepNesting 130000) = Inl RangeError"
    using analyzeCode_raises_on_deep_nesting[of 100000 130000] by simp
  moreover have "analyzeCode 2 (deepNesting 3) = Inl RangeError"
    by code_simp
  moreover have "analyzeCode 3 (deepNesting 3) \<noteq> Inl RangeError"
    by code_simp
  ultimately show ?thesis by blast
qed

section \<open>The line splitter\<close>

lemma length_splitFrom: "length (splitFrom sep cur s) = Suc (length (filter (\<lambda>c. c = sep) s))"
  by (induction s arbitrary: cur) simp_all

text \<open>
  C8, as stated: given empty input text, the line splitter produces zero lines. It does
  not: \<open>"".split('\n')\<close> is the array of one empty string.
\<close>

theorem split_empty_counterexample: "split [] newline \<noteq> []"
  by (simp add: split_def)

text \<open>
  C8, amended: given empty input text, the line splitter produces exactly one line, the
  empty string; every text gives one line more than it has newline characters.
\<close>

theorem split_empty_one_line:
  "split [] newline = [[]] \<and> length (split s newline) = Suc (length (filter (\<lambda>c. c = newline) s))"
  by (simp add: split_def length_splitFrom)

end
